theory Spec2Isabelle
  imports
    Main
    "HOL-Library.Sublist"
    "HOL-Library.AList"
    "HOL-Library.Char_ord"
    "HOL-Library.List_Lexorder"
    "HOL-Library.Product_Lexorder"
begin

section \<open>The configuration (tools/anntoconll.py, argparser)\<close>

text \<open>
  The fields of the global \<open>options\<close> that the modelled functions read: \<open>--singleclass\<close>
  (a string, default \<open>None\<close>), \<open>--attributes\<close> (a flag) and \<open>--preprocess\<close> (one of
  \<open>regex\<close>, \<open>syntok\<close>, \<open>none\<close>).
\<close>

datatype preprocess = PreRegex | PreSyntok | PreNone

record options =
  singleclass :: "string option"
  attributes :: bool
  preprocess :: preprocess

section \<open>Standoff spans and overlap resolution (tools/anntoconll.py)\<close>

text \<open>
  \<^verbatim>\<open>Textbound = namedtuple('Textbound', 'start end type text')\<close>.
  Offsets are Python integers, hence \<open>int\<close>. The selector names carry the prefix
  \<open>tb_\<close> because \<open>end\<close> is reserved.
\<close>

datatype Textbound = Textbound (tb_start: int) (tb_end: int) (tb_type: string) (tb_text: string)

text \<open>
  The state of the double loop of \<open>eliminate_overlaps\<close>: the dictionary
  \<open>eliminate\<close> (keyed by the tuple's value, as a Python dict hashes a namedtuple) and the
  messages printed to stderr, each kept as the pair (eliminated span, span it overlaps).
\<close>

type_synonym elim_state = "(Textbound \<rightharpoonup> bool) \<times> (Textbound \<times> Textbound) list"

text \<open>
  The body of the inner loop for the pair \<open>t1\<close> (at position \<open>i\<close>) and \<open>t2\<close> (at position
  \<open>j\<close>). The test \<open>t1 is t2\<close> is object identity; every element of the list is an object of
  its own (line 309 builds one tuple per entry), so identity is equality of positions.
\<close>

fun eliminate_step :: "nat \<Rightarrow> Textbound \<Rightarrow> nat \<times> Textbound \<Rightarrow> elim_state \<Rightarrow> elim_state" where
  "eliminate_step i t1 (j, t2) (eliminate, printed) =
     (if i = j then (eliminate, printed)
      else if tb_start t2 \<ge> tb_end t1 \<or> tb_end t2 \<le> tb_start t1 then (eliminate, printed)
      else if tb_end t1 - tb_start t1 > tb_end t2 - tb_start t2
        then (eliminate(t2 \<mapsto> True), printed @ [(t2, t1)])
        else (eliminate(t1 \<mapsto> True), printed @ [(t1, t2)]))"

definition eliminate_loops :: "Textbound list \<Rightarrow> elim_state" where
  "eliminate_loops textbounds =
     (let indexed = enumerate 0 textbounds
      in fold (\<lambda>(i, t1). fold (eliminate_step i t1) indexed) indexed (Map.empty, []))"

text \<open>The returned list, and beside it what was printed.\<close>

definition eliminate_overlaps :: "Textbound list \<Rightarrow> Textbound list \<times> (Textbound \<times> Textbound) list" where
  "eliminate_overlaps textbounds =
     (let (eliminate, printed) = eliminate_loops textbounds
      in ([t \<leftarrow> textbounds. eliminate t = None], printed))"

text \<open>The overlap relation in the words of the specification, and the length of a span.\<close>

definition overlaps :: "Textbound \<Rightarrow> Textbound \<Rightarrow> bool" where
  "overlaps a b = (\<not> (tb_start b \<ge> tb_end a \<or> tb_end b \<le> tb_start a))"

definition span_length :: "Textbound \<Rightarrow> int" where
  "span_length t = tb_end t - tb_start t"

text \<open>What one pass of the inner loop body prints, as a list (empty when the pair is skipped).\<close>

definition flags :: "nat \<times> Textbound \<Rightarrow> nat \<times> Textbound \<Rightarrow> (Textbound \<times> Textbound) list" where
  "flags x y =
     (if fst x = fst y \<or> \<not> overlaps (snd x) (snd y) then []
      else if span_length (snd x) > span_length (snd y) then [(snd y, snd x)]
      else [(snd x, snd y)])"

text \<open>Example 2 of the specification, and two overlapping spans of equal length.\<close>

definition example_spans :: "Textbound list" where
  "example_spans = [Textbound 0 7 ''A'' ''abcdefg'', Textbound 4 10 ''B'' ''efghij'']"

definition tie_spans :: "Textbound list" where
  "tie_spans = [Textbound 0 5 ''A'' ''abcde'', Textbound 3 8 ''B'' ''defgh'']"

section \<open>Python strings, regular expressions and errors\<close>

text \<open>
  A Python \<open>str\<close> is modelled as a \<open>string\<close>; a \<open>char\<close> stands for a code point below 256.
  The exceptions the modelled functions can raise:
\<close>

datatype py_error = AssertionError | ValueError | KeyError | IndexError | FormatError

definition TAB :: char where
  "TAB = CHR 0x09"

definition NEWLINE :: char where
  "NEWLINE = CHR 0x0A"

text \<open>
  \<open>str.isspace\<close> on one character, which is also the class \<open>\s\<close> of a \<open>str\<close> pattern:
  below 256 these are TAB, LF, VT, FF, CR, the separators 0x1C to 0x1F, the space, NEL (0x85)
  and the no-break space (0xA0). \<open>\d\<close> is a decimal digit: below 256 only \<open>0\<close> to \<open>9\<close>.
\<close>

definition isspace :: "char \<Rightarrow> bool" where
  "isspace c = ((of_char c :: nat) \<in> {9, 10, 11, 12, 13, 28, 29, 30, 31, 32, 133, 160})"

definition isdigit :: "char \<Rightarrow> bool" where
  "isdigit c = (48 \<le> (of_char c :: nat) \<and> (of_char c :: nat) \<le> 57)"

text \<open>The class \<open>[0-9a-zA-Z]\<close> of \<open>TOKENIZATION_REGEX\<close>.\<close>

definition isalnum_ascii :: "char \<Rightarrow> bool" where
  "isalnum_ascii c =
     (let n = (of_char c :: nat)
      in (48 \<le> n \<and> n \<le> 57) \<or> (97 \<le> n \<and> n \<le> 122) \<or> (65 \<le> n \<and> n \<le> 90))"

text \<open>
  \<open>s.split(sep)\<close> for a one-character separator: one field more than there are separators,
  never an empty list. \<open>sep.join(fields)\<close>.
\<close>

fun split_on :: "char \<Rightarrow> string \<Rightarrow> string list" where
  "split_on sep [] = [[]]"
| "split_on sep (c # cs) =
     (if c = sep then [] # split_on sep cs
      else (case split_on sep cs of [] \<Rightarrow> [[c]] | f # fs \<Rightarrow> (c # f) # fs))"

fun join_with :: "string \<Rightarrow> string list \<Rightarrow> string" where
  "join_with sep [] = []"
| "join_with sep [f] = f"
| "join_with sep (f # g # fs) = f @ sep @ join_with sep (g # fs)"

text \<open>
  \<open>s.split()\<close> without a separator: the maximal runs of characters that are not whitespace.
  The first argument is the run read so far.
\<close>

fun split_ws_from :: "string \<Rightarrow> string \<Rightarrow> string list" where
  "split_ws_from cur [] = (if cur = [] then [] else [cur])"
| "split_ws_from cur (c # cs) =
     (if isspace c then (if cur = [] then split_ws_from [] cs else cur # split_ws_from [] cs)
      else split_ws_from (cur @ [c]) cs)"

definition split_ws :: "string \<Rightarrow> string list" where
  "split_ws s = split_ws_from [] s"

text \<open>
  \<open>EMPTY_LINE_RE = re.compile(r'^\s*$')\<close>, used with \<open>match\<close>: \<open>\s*\<close> also consumes a
  final newline, so the pattern matches exactly the strings made of whitespace only.
\<close>

definition EMPTY_LINE_RE_match :: "string \<Rightarrow> bool" where
  "EMPTY_LINE_RE_match l = list_all isspace l"

text \<open>
  \<open>CONLL_LINE_RE = re.compile(r'^\S+\t\d+\t\d+.')\<close>, used with \<open>search\<close>; without the
  MULTILINE flag \<open>^\<close> anchors at the start of the string. \<open>\S+\<close> must take every leading
  character that is not whitespace (the next character has to be the TAB, which is
  whitespace), and the first \<open>\d+\<close> every digit (the next has to be the TAB). The last
  \<open>\d+\<close> may give back a digit to the final \<open>.\<close>, which matches any character but the
  newline.
\<close>

definition CONLL_LINE_RE_search :: "string \<Rightarrow> bool" where
  "CONLL_LINE_RE_search l =
     (let label = takeWhile (\<lambda>c. \<not> isspace c) l; r1 = dropWhile (\<lambda>c. \<not> isspace c) l
      in label \<noteq> [] \<and>
         (case r1 of [] \<Rightarrow> False
          | c1 # r1' \<Rightarrow> c1 = TAB \<and>
             (let d1 = takeWhile isdigit r1'; r2 = dropWhile isdigit r1'
              in d1 \<noteq> [] \<and>
                 (case r2 of [] \<Rightarrow> False
                  | c2 # r2' \<Rightarrow> c2 = TAB \<and>
                     (let d2 = takeWhile isdigit r2'; r3 = dropWhile isdigit r2'
                      in d2 \<noteq> [] \<and>
                         (2 \<le> length d2 \<or> (case r3 of [] \<Rightarrow> False | c3 # _ \<Rightarrow> c3 \<noteq> NEWLINE)))))))"

section \<open>Stripping and attaching labels (tools/anntoconll.py)\<close>

text \<open>
  \<open>strip_labels\<close>: one pass over the lines, appending to \<open>labels\<close> and \<open>stripped\<close>.
  \<open>fields[0]\<close> exists because \<open>split\<close> never returns an empty list.
\<close>

definition strip_labels :: "string list \<Rightarrow> string option list \<times> string list" where
  "strip_labels lines =
     fold (\<lambda>l (labels, stripped).
             if EMPTY_LINE_RE_match l then (labels @ [None], stripped @ [l])
             else (let fields = split_on TAB l
                   in (labels @ [Some (hd fields)], stripped @ [join_with [TAB] (tl fields)])))
          lines ([], [])"

text \<open>
  \<open>attach_labels\<close>: the two \<open>assert\<close> statements are branches that return
  \<open>AssertionError\<close>. The second one, \<open>(label is None and empty) or (label is not None and
  not empty)\<close>, is the case distinction on the label.
\<close>

fun attach_loop :: "(string option \<times> string) list \<Rightarrow> string list \<Rightarrow> py_error + string list" where
  "attach_loop [] attached = Inr attached"
| "attach_loop ((label, line) # rest) attached =
     (let empty = EMPTY_LINE_RE_match line
      in case label of
           None \<Rightarrow> if empty then attach_loop rest (attached @ [line]) else Inl AssertionError
         | Some lab \<Rightarrow> if empty then Inl AssertionError
                       else attach_loop rest (attached @ [lab @ [TAB] @ line]))"

definition attach_labels :: "string option list \<Rightarrow> string list \<Rightarrow> py_error + string list" where
  "attach_labels labels lines =
     (if length labels \<noteq> length lines then Inl AssertionError
      else attach_loop (zip labels lines) [])"

text \<open>A line list is in CoNLL format when every line is empty or matches \<open>CONLL_LINE_RE\<close>
  (the test of \<open>read_sentence\<close>).\<close>

definition conll_format :: "string list \<Rightarrow> bool" where
  "conll_format lines = list_all (\<lambda>l. EMPTY_LINE_RE_match l \<or> CONLL_LINE_RE_search l) lines"

definition example_conll :: "string list" where
  "example_conll =
     [''B-PER'' @ [TAB] @ ''0'' @ [TAB] @ ''4'' @ [TAB] @ ''John'' @ [NEWLINE],
      ''O'' @ [TAB] @ ''5'' @ [TAB] @ ''8'' @ [TAB] @ ''ran'' @ [NEWLINE],
      [NEWLINE]]"

text \<open>What the round trip needs of one line: it is empty, or what follows its first TAB is not
  empty and label, TAB and remainder give the line back.\<close>

definition roundtrips :: "string \<Rightarrow> bool" where
  "roundtrips l = (EMPTY_LINE_RE_match l \<or>
      (\<not> EMPTY_LINE_RE_match (join_with [TAB] (tl (split_on TAB l))) \<and>
       hd (split_on TAB l) @ [TAB] @ join_with [TAB] (tl (split_on TAB l)) = l))"

section \<open>Label projection (tools/anntoconll.py, relabel)\<close>

text \<open>
  An element of \<open>lines\<close> is the list \<open>[tag, start, end, token]\<close> or the empty list \<open>[]\<close> that
  delimits sentences: \<open>None\<close> is the empty list.
\<close>

datatype token_line = TokenLine (tl_tag: string) (tl_start: int) (tl_end: int) (tl_token: string)

type_synonym line = "token_line option"

text \<open>The two kinds of message of \<open>relabel\<close> on stderr, with the values they are formatted from.\<close>

datatype warning =
    OverlappingAnnotations string
  | BoundaryMismatch string string string

text \<open>
  Lines 192 to 198: every span claims the offsets of \<open>range(tb.start, tb.end)\<close> in the
  dictionary \<open>offset_label\<close>; a later span overwrites an earlier one, with a warning.
\<close>

definition claim_offset ::
  "string \<Rightarrow> Textbound \<Rightarrow> int \<Rightarrow> (int \<rightharpoonup> Textbound) \<times> warning list \<Rightarrow>
   (int \<rightharpoonup> Textbound) \<times> warning list" where
  "claim_offset fname tb i st =
     (case st of (offset_label, printed) \<Rightarrow>
        (offset_label(i \<mapsto> tb),
         if offset_label i \<noteq> None then printed @ [OverlappingAnnotations fname] else printed))"

definition build_offset_label ::
  "string \<Rightarrow> Textbound list \<Rightarrow> (int \<rightharpoonup> Textbound) \<times> warning list" where
  "build_offset_label fname annotations =
     fold (\<lambda>tb. fold (claim_offset fname tb) [tb_start tb .. tb_end tb - 1])
       annotations (Map.empty, [])"

text \<open>
  Lines 208 to 215: the search through \<open>range(start, end)\<close> for the first claimed offset. It
  returns \<open>label\<close> and what it printed.
\<close>

fun find_label ::
  "(int \<rightharpoonup> Textbound) \<Rightarrow> string \<Rightarrow> int \<Rightarrow> string \<Rightarrow> int list \<Rightarrow> string option \<times> warning list" where
  "find_label offset_label fname start token [] = (None, [])"
| "find_label offset_label fname start token (ofs # rest) =
     (case offset_label ofs of
        None \<Rightarrow> find_label offset_label fname start token rest
      | Some tb \<Rightarrow>
          (Some (tb_type tb),
           if ofs \<noteq> start then [BoundaryMismatch fname token (tb_text tb)] else []))"

text \<open>
  Lines 200 to 224: the loop over \<open>lines\<close>, carrying \<open>prev_label\<close>. The comparison
  \<open>label == prev_label\<close> is made where \<open>label\<close> is a string, so it holds exactly when
  \<open>prev_label\<close> is that string.
\<close>

fun relabel_loop ::
  "(int \<rightharpoonup> Textbound) \<Rightarrow> string \<Rightarrow> line list \<Rightarrow> string option \<Rightarrow> line list \<times> warning list" where
  "relabel_loop offset_label fname [] prev_label = ([], [])"
| "relabel_loop offset_label fname (None # rest) prev_label =
     (case relabel_loop offset_label fname rest None of
        (done, printed) \<Rightarrow> (None # done, printed))"
| "relabel_loop offset_label fname (Some (TokenLine tag start end token) # rest) prev_label =
     (case find_label offset_label fname start token [start .. end - 1] of
        (label, printed1) \<Rightarrow>
          (case relabel_loop offset_label fname rest label of
             (done, printed2) \<Rightarrow>
               (Some (TokenLine
                  (case label of
                     None \<Rightarrow> tag
                   | Some lab \<Rightarrow> if label = prev_label then ''I-'' @ lab else ''B-'' @ lab)
                  start end token) # done,
                printed1 @ printed2)))"

text \<open>Lines 226 to 230: the optional single-classing; \<open>l[0][:2]\<close> is \<open>take 2\<close>.\<close>

definition singleclass_line :: "string \<Rightarrow> line \<Rightarrow> line" where
  "singleclass_line cls l =
     (case l of
        None \<Rightarrow> None
      | Some (TokenLine tag start end token) \<Rightarrow>
          if tag \<noteq> ''O'' then Some (TokenLine (take 2 tag @ cls) start end token) else l)"

text \<open>\<open>if options.singleclass:\<close> is false for \<open>None\<close> and for the empty string.\<close>

definition singleclass_set :: "options \<Rightarrow> bool" where
  "singleclass_set opts = (case singleclass opts of None \<Rightarrow> False | Some cls \<Rightarrow> cls \<noteq> [])"

definition relabel ::
  "options \<Rightarrow> line list \<Rightarrow> Textbound list \<Rightarrow> string \<Rightarrow> line list \<times> warning list" where
  "relabel opts lines annotations fname =
     (case build_offset_label fname annotations of
        (offset_label, printed0) \<Rightarrow>
          (case relabel_loop offset_label fname lines None of
             (done, printed1) \<Rightarrow>
               ((case singleclass opts of
                   None \<Rightarrow> done
                 | Some cls \<Rightarrow> if cls \<noteq> [] then map (singleclass_line cls) done else done),
                printed0 @ printed1)))"

subsection \<open>The properties of the specification, as predicates on the output\<close>

text \<open>
  The line immediately before position \<open>k\<close>; at the start of the sequence there is none,
  which is read as a sentence boundary. The type of a line is the part of its tag after
  \<open>B-\<close> or \<open>I-\<close>; a boundary and a token tagged \<open>O\<close> have none.
\<close>

definition line_before :: "line list \<Rightarrow> nat \<Rightarrow> line" where
  "line_before ls k = (if k = 0 then None else ls ! (k - 1))"

definition line_type :: "line \<Rightarrow> string option" where
  "line_type l =
     (case l of None \<Rightarrow> None
      | Some t \<Rightarrow> if tl_tag t = ''O'' then None else Some (drop 2 (tl_tag t)))"

text \<open>
  No \<open>I-<type>\<close> immediately follows a boundary, an \<open>O\<close> token or a token of another type.
\<close>

definition inside_follows_same_type :: "line list \<Rightarrow> bool" where
  "inside_follows_same_type ls =
     (\<forall>k < length ls. \<forall>t. ls ! k = Some t \<and> take 2 (tl_tag t) = ''I-''
        \<longrightarrow> line_type (line_before ls k) = Some (drop 2 (tl_tag t)))"

text \<open>
  A token that is not \<open>O\<close> and whose predecessor has another type or none (the first token of
  a maximal same-type run) is tagged \<open>B-<type>\<close>.
\<close>

definition runs_begin_with_B :: "line list \<Rightarrow> bool" where
  "runs_begin_with_B ls =
     (\<forall>k < length ls. \<forall>t. ls ! k = Some t \<and> tl_tag t \<noteq> ''O'' \<and>
          line_type (line_before ls k) \<noteq> line_type (Some t)
        \<longrightarrow> take 2 (tl_tag t) = ''B-'')"

text \<open>
  A token that is not \<open>O\<close> and continues a run (its predecessor has its type) is tagged
  \<open>I-<type>\<close>: the run has exactly one \<open>B-<type>\<close>, its first tag.
\<close>

definition one_B_per_run :: "line list \<Rightarrow> bool" where
  "one_B_per_run ls =
     (\<forall>k < length ls. \<forall>t. ls ! k = Some t \<and> tl_tag t \<noteq> ''O'' \<and>
          line_type (line_before ls k) = line_type (Some t)
        \<longrightarrow> take 2 (tl_tag t) = ''I-'')"

text \<open>The input of the label projector: every token carries the placeholder tag \<open>O\<close>.\<close>

definition placeholder_tags :: "line list \<Rightarrow> bool" where
  "placeholder_tags ls = list_all (\<lambda>l. case l of None \<Rightarrow> True | Some t \<Rightarrow> tl_tag t = ''O'') ls"

text \<open>A span set without overlaps, by positions, as \<open>eliminate_overlaps\<close> returns it.\<close>

definition nonoverlapping :: "Textbound list \<Rightarrow> bool" where
  "nonoverlapping anns =
     (\<forall>i < length anns. \<forall>j < length anns. i \<noteq> j \<longrightarrow> \<not> overlaps (anns ! i) (anns ! j))"

text \<open>An offset is claimed when a span covers it.\<close>

definition covers :: "Textbound \<Rightarrow> int \<Rightarrow> bool" where
  "covers tb ofs = (tb_start tb \<le> ofs \<and> ofs < tb_end tb)"

definition claimed :: "Textbound list \<Rightarrow> int \<Rightarrow> bool" where
  "claimed anns ofs = list_ex (\<lambda>tb. covers tb ofs) anns"

definition first_claimed :: "Textbound list \<Rightarrow> int \<Rightarrow> int \<Rightarrow> int \<Rightarrow> bool" where
  "first_claimed anns start end ofs =
     (start \<le> ofs \<and> ofs < end \<and> claimed anns ofs \<and>
      list_all (\<lambda>o'. \<not> claimed anns o') [start .. ofs - 1])"

text \<open>The type that reaches the output: the single class when one is configured.\<close>

definition emitted_type :: "options \<Rightarrow> string \<Rightarrow> string" where
  "emitted_type opts ty =
     (case singleclass opts of None \<Rightarrow> ty | Some cls \<Rightarrow> if cls \<noteq> [] then cls else ty)"

text \<open>The label found for a line, and the tag the loop writes, given the previous label.\<close>

definition label_of :: "(int \<rightharpoonup> Textbound) \<Rightarrow> string \<Rightarrow> line \<Rightarrow> string option" where
  "label_of offset_label fname l =
     (case l of None \<Rightarrow> None
      | Some t \<Rightarrow> fst (find_label offset_label fname (tl_start t) (tl_token t)
                        [tl_start t .. tl_end t - 1]))"

definition retag :: "string option \<Rightarrow> string option \<Rightarrow> line \<Rightarrow> line" where
  "retag prev_label label l =
     (case l of None \<Rightarrow> None
      | Some t \<Rightarrow>
          Some (TokenLine
            (case label of None \<Rightarrow> tl_tag t
             | Some lab \<Rightarrow> if label = prev_label then ''I-'' @ lab else ''B-'' @ lab)
            (tl_start t) (tl_end t) (tl_token t)))"

text \<open>Example 1 of the specification (\<open>John ran.\<close>), and inputs with a single class.\<close>

definition john_lines :: "line list" where
  "john_lines =
     [Some (TokenLine ''O'' 0 4 ''John''), Some (TokenLine ''O'' 5 8 ''ran''),
      Some (TokenLine ''O'' 8 9 ''.''), None]"

definition john_spans :: "Textbound list" where
  "john_spans = [Textbound 0 4 ''PERSON'' ''John'']"

definition no_options :: options where
  "no_options = \<lparr>singleclass = None, attributes = False, preprocess = PreRegex\<rparr>"

definition single_class_options :: options where
  "single_class_options = \<lparr>singleclass = Some ''C'', attributes = False, preprocess = PreRegex\<rparr>"

definition two_type_lines :: "line list" where
  "two_type_lines = [Some (TokenLine ''O'' 0 1 ''a''), Some (TokenLine ''O'' 1 2 ''b'')]"

definition two_type_spans :: "Textbound list" where
  "two_type_spans = [Textbound 0 1 ''X'' ''a'', Textbound 1 2 ''Y'' ''b'']"

text \<open>What the single-classing makes of a line of the loop, and the label before position \<open>k\<close>.\<close>

definition final_line :: "options \<Rightarrow> line \<Rightarrow> line" where
  "final_line opts l =
     (case singleclass opts of None \<Rightarrow> l
      | Some cls \<Rightarrow> if cls \<noteq> [] then singleclass_line cls l else l)"

definition label_before :: "(int \<rightharpoonup> Textbound) \<Rightarrow> string \<Rightarrow> line list \<Rightarrow> nat \<Rightarrow> string option" where
  "label_before offset_label fname ls k =
     (if k = 0 then None else label_of offset_label fname (ls ! (k - 1)))"

text \<open>A span whose edges fall inside two tokens.\<close>

definition mismatch_lines :: "line list" where
  "mismatch_lines = [Some (TokenLine ''O'' 0 4 ''John''), Some (TokenLine ''O'' 5 8 ''ran'')]"

definition mismatch_spans :: "Textbound list" where
  "mismatch_spans = [Textbound 2 6 ''X'' ''hn r'']"

section \<open>Sentence splitting and tokenization (tools/anntoconll.py, text_to_conll)\<close>

text \<open>
  \<open>TOKENIZATION_REGEX = re.compile(r'([0-9a-zA-Z]+|[^0-9a-zA-Z])')\<close>: the successive
  leftmost matches. At an alphanumeric character the first alternative takes the whole run
  (\<open>+\<close> is greedy); any other character, the newline included, is matched alone by the
  second.
\<close>

function TOKENIZATION_REGEX_matches :: "string \<Rightarrow> string list" where
  "TOKENIZATION_REGEX_matches [] = []"
| "TOKENIZATION_REGEX_matches (c # cs) =
     (if isalnum_ascii c
      then (c # takeWhile isalnum_ascii cs) # TOKENIZATION_REGEX_matches (dropWhile isalnum_ascii cs)
      else [c] # TOKENIZATION_REGEX_matches cs)"
  by pat_completeness auto
termination
  by (relation "measure length") (auto simp: le_imp_less_Suc length_dropWhile_le)

text \<open>
  \<open>TOKENIZATION_REGEX.split(s)\<close>: the pattern is one capturing group, so the result
  alternates the text between matches with the matches. The matches are adjacent and cover
  \<open>s\<close>, so every text between them is the empty string.
\<close>

definition TOKENIZATION_REGEX_split :: "string \<Rightarrow> string list" where
  "TOKENIZATION_REGEX_split s = [] # concat (map (\<lambda>m. [m, []]) (TOKENIZATION_REGEX_matches s))"

text \<open>
  \<open>PRETOKENIZED_REGEX = re.compile(r'\S+|\s+')\<close> with \<open>findall\<close>: the maximal runs of
  characters that are not whitespace, and the maximal runs of whitespace.
\<close>

function PRETOKENIZED_REGEX_findall :: "string \<Rightarrow> string list" where
  "PRETOKENIZED_REGEX_findall [] = []"
| "PRETOKENIZED_REGEX_findall (c # cs) =
     (if isspace c
      then (c # takeWhile isspace cs) # PRETOKENIZED_REGEX_findall (dropWhile isspace cs)
      else (c # takeWhile (\<lambda>x. \<not> isspace x) cs)
             # PRETOKENIZED_REGEX_findall (dropWhile (\<lambda>x. \<not> isspace x) cs))"
  by pat_completeness auto
termination
  by (relation "measure length") (auto simp: le_imp_less_Suc length_dropWhile_le)

text \<open>
  \<open>NEWLINE_TERM_REGEX = re.compile(r'(.*?\n)')\<close> with \<open>split\<close>: a match is the text up to
  and including the next newline (\<open>.\<close> does not match a newline); before every match stands
  the empty text between matches, and after the last one the rest of the string. The first
  argument is the text read since the last match.
\<close>

fun NEWLINE_TERM_REGEX_split_from :: "string \<Rightarrow> string \<Rightarrow> string list" where
  "NEWLINE_TERM_REGEX_split_from cur [] = [cur]"
| "NEWLINE_TERM_REGEX_split_from cur (c # cs) =
     (if c = NEWLINE then [] # (cur @ [c]) # NEWLINE_TERM_REGEX_split_from [] cs
      else NEWLINE_TERM_REGEX_split_from (cur @ [c]) cs)"

definition NEWLINE_TERM_REGEX_split :: "string \<Rightarrow> string list" where
  "NEWLINE_TERM_REGEX_split s = NEWLINE_TERM_REGEX_split_from [] s"

text \<open>
  Lines 128 to 162, the list \<open>sentences\<close> for each value of \<open>options.preprocess\<close>. The file
  \<open>f\<close> is the list of its lines; \<open>f.read()\<close> is their concatenation. Two collaborators
  are not part of the sources and are parameters: \<open>sentencebreaks_to_newlines\<close> (module
  \<open>sentencesplit\<close>) and the result of \<open>syntok.segmenter.analyze\<close>, a list of paragraphs,
  each a list of sentences, each a list of tokens with their \<open>spacing\<close> and \<open>value\<close>.
\<close>

definition nonempty :: "'a list \<Rightarrow> bool" where
  "nonempty xs = (xs \<noteq> [])"

definition sentences_none :: "string list \<Rightarrow> string list list" where
  "sentences_none f =
     filter nonempty (map (\<lambda>line. filter nonempty (PRETOKENIZED_REGEX_findall line)) f)"

definition sentences_regex :: "(string \<Rightarrow> string) \<Rightarrow> string list \<Rightarrow> string list list" where
  "sentences_regex sentencebreaks_to_newlines f =
     concat (map (\<lambda>line.
        filter nonempty
          (map (\<lambda>s. filter nonempty (TOKENIZATION_REGEX_split s))
             (NEWLINE_TERM_REGEX_split (sentencebreaks_to_newlines line)))) f)"

definition syntok_tokenized :: "(string \<times> string) list \<Rightarrow> string list" where
  "syntok_tokenized sentence =
     concat (map (\<lambda>(spacing, val).
        (if spacing \<noteq> [] then [spacing] else []) @ (if val \<noteq> [] then [val] else [])) sentence)"

definition sentences_syntok ::
  "(string \<Rightarrow> (string \<times> string) list list list) \<Rightarrow> string list \<Rightarrow> string list list" where
  "sentences_syntok analyze f =
     concat (map (\<lambda>paragraph. filter nonempty (map syntok_tokenized paragraph) @ [[[NEWLINE]]])
               (analyze (concat f)))"

definition text_to_conll_sentences ::
  "options \<Rightarrow> (string \<Rightarrow> string) \<Rightarrow> (string \<Rightarrow> (string \<times> string) list list list) \<Rightarrow>
   string list \<Rightarrow> string list list" where
  "text_to_conll_sentences opts sentencebreaks_to_newlines analyze f =
     (case preprocess opts of
        PreNone \<Rightarrow> sentences_none f
      | PreRegex \<Rightarrow> sentences_regex sentencebreaks_to_newlines f
      | PreSyntok \<Rightarrow> sentences_syntok analyze f)"

text \<open>
  Lines 164 to 178: the token lines with their offsets. A token that is whitespace only
  advances the offset and gives no line; a sentence with a visible token is closed by the
  empty list. \<open>t.isspace()\<close> is false for the empty string.
\<close>

definition str_isspace :: "string \<Rightarrow> bool" where
  "str_isspace t = (t \<noteq> [] \<and> list_all isspace t)"

fun sentence_lines :: "string list \<Rightarrow> int \<Rightarrow> bool \<Rightarrow> line list \<times> int \<times> bool" where
  "sentence_lines [] offset nonspace_token_seen = ([], offset, nonspace_token_seen)"
| "sentence_lines (t # ts) offset nonspace_token_seen =
     (if \<not> str_isspace t
      then (case sentence_lines ts (offset + int (length t)) True of
              (ls, offset', seen) \<Rightarrow>
                (Some (TokenLine ''O'' offset (offset + int (length t)) t) # ls, offset', seen))
      else sentence_lines ts (offset + int (length t)) nonspace_token_seen)"

fun token_lines :: "string list list \<Rightarrow> int \<Rightarrow> line list" where
  "token_lines [] offset = []"
| "token_lines (tokenized_sentence # rest) offset =
     (case sentence_lines tokenized_sentence offset False of
        (ls, offset', nonspace_token_seen) \<Rightarrow>
          ls @ (if nonspace_token_seen then [None] else []) @ token_lines rest offset')"

definition syntok_options :: options where
  "syntok_options = \<lparr>singleclass = None, attributes = False, preprocess = PreSyntok\<rparr>"

section \<open>Parsing standoff annotations (tools/anntoconll.py, parse_textbounds)\<close>

text \<open>\<open>l.rstrip('\n')\<close> removes every trailing newline.\<close>

definition rstrip_newline :: "string \<Rightarrow> string" where
  "rstrip_newline l = rev (dropWhile (\<lambda>c. c = NEWLINE) (rev l))"

text \<open>
  \<open>TEXTBOUND_LINE_RE = re.compile(r'^T\d+\t')\<close> and \<open>ATTRIBUTE_LINE_RE =
  re.compile(r'^A\d+\t')\<close>: the letter, all the digits that follow (at least one), a TAB.
\<close>

definition id_line_re :: "char \<Rightarrow> string \<Rightarrow> bool" where
  "id_line_re letter l =
     (case l of [] \<Rightarrow> False
      | c # r \<Rightarrow> c = letter \<and> takeWhile isdigit r \<noteq> [] \<and>
                 (case dropWhile isdigit r of [] \<Rightarrow> False | x # _ \<Rightarrow> x = TAB))"

definition TEXTBOUND_LINE_RE_search :: "string \<Rightarrow> bool" where
  "TEXTBOUND_LINE_RE_search l = id_line_re (CHR ''T'') l"

definition ATTRIBUTE_LINE_RE_match :: "string \<Rightarrow> bool" where
  "ATTRIBUTE_LINE_RE_match l = id_line_re (CHR ''A'') l"

text \<open>
  \<open>int(s)\<close> for a string: whitespace around the literal is ignored, a sign may come first,
  and the digits may be grouped by single underscores. \<open>None\<close> stands for the
  \<open>ValueError\<close> it raises otherwise.
\<close>

fun int_body_ok :: "bool \<Rightarrow> string \<Rightarrow> bool" where
  "int_body_ok after_digit [] = after_digit"
| "int_body_ok after_digit (c # cs) =
     (if isdigit c then int_body_ok True cs
      else if c = CHR ''_'' then after_digit \<and> int_body_ok False cs
      else False)"

definition digits_value :: "string \<Rightarrow> int" where
  "digits_value ds = fold (\<lambda>c n. 10 * n + (int (of_char c) - 48)) ds 0"

definition strip :: "string \<Rightarrow> string" where
  "strip s = rev (dropWhile isspace (rev (dropWhile isspace s)))"

definition py_int :: "string \<Rightarrow> int option" where
  "py_int s =
     (let t = strip s;
          negative = (t \<noteq> [] \<and> hd t = CHR ''-'');
          body = (if t \<noteq> [] \<and> (hd t = CHR ''-'' \<or> hd t = CHR ''+'') then tl t else t)
      in if int_body_ok False body
         then Some ((if negative then - 1 else 1) * digits_value (filter isdigit body))
         else None)"

text \<open>
  An entry of \<open>mapping\<close> is the tuple \<open>(start, end, [type_], text)\<close>. The dictionary keeps
  the order of first insertion and an assignment to a present key replaces the value in
  place: an association list with \<open>AList.update\<close>.
\<close>

type_synonym entry = "int \<times> int \<times> string list \<times> string"

type_synonym parse_state = "(string \<times> entry) list \<times> (string \<times> string) list"

text \<open>Lines 294 to 296: the two unpackings of an attribute line.\<close>

definition parse_attribute :: "string \<Rightarrow> py_error + (string \<times> string)" where
  "parse_attribute l =
     (case split_on TAB l of
        [_, att_tid] \<Rightarrow>
          (case split_on (CHR '' '') att_tid of
             [att, tid] \<Rightarrow> Inr (tid, att)
           | _ \<Rightarrow> Inl ValueError)
      | _ \<Rightarrow> Inl ValueError)"

text \<open>Lines 299 to 301: the two unpackings of a textbound line and the two calls of \<open>int\<close>.\<close>

definition parse_textbound :: "string \<Rightarrow> py_error + (string \<times> entry)" where
  "parse_textbound l =
     (case split_on TAB l of
        [id_, type_offsets, text] \<Rightarrow>
          (case split_ws type_offsets of
             [type_, start, end] \<Rightarrow>
               (case py_int start of
                  None \<Rightarrow> Inl ValueError
                | Some s \<Rightarrow>
                    (case py_int end of
                       None \<Rightarrow> Inl ValueError
                     | Some e \<Rightarrow> Inr (id_, (s, e, [type_], text))))
           | _ \<Rightarrow> Inl ValueError)
      | _ \<Rightarrow> Inl ValueError)"

text \<open>The body of the loop over the lines of the file, lines 290 to 303.\<close>

definition parse_line :: "string \<Rightarrow> parse_state \<Rightarrow> py_error + parse_state" where
  "parse_line raw st =
     (case st of (mapping, atts) \<Rightarrow>
        (let l = rstrip_newline raw
         in if \<not> TEXTBOUND_LINE_RE_search l
            then (if ATTRIBUTE_LINE_RE_match l
                  then (case parse_attribute l of
                          Inl err \<Rightarrow> Inl err
                        | Inr tid_att \<Rightarrow> Inr (mapping, atts @ [tid_att]))
                  else Inr (mapping, atts))
            else (case parse_textbound l of
                    Inl err \<Rightarrow> Inl err
                  | Inr (id_, ent) \<Rightarrow> Inr (AList.update id_ ent mapping, atts))))"

fun parse_lines :: "string list \<Rightarrow> parse_state \<Rightarrow> py_error + parse_state" where
  "parse_lines [] st = Inr st"
| "parse_lines (raw # rest) st =
     (case parse_line raw st of Inl err \<Rightarrow> Inl err | Inr st' \<Rightarrow> parse_lines rest st')"

text \<open>
  Lines 307 and 308: \<open>mapping[tid][2].append(att)\<close> for the attributes in sorted order. The
  subscription raises \<open>KeyError\<close> for an entity id that is not a key.
\<close>

fun append_attributes ::
  "(string \<times> string) list \<Rightarrow> (string \<times> entry) list \<Rightarrow> py_error + (string \<times> entry) list" where
  "append_attributes [] mapping = Inr mapping"
| "append_attributes ((tid, att) # rest) mapping =
     (case map_of mapping tid of
        None \<Rightarrow> Inl KeyError
      | Some (s, e, types, text) \<Rightarrow>
          append_attributes rest (AList.update tid (s, e, types @ [att], text) mapping))"

definition make_textbound :: "string \<times> entry \<Rightarrow> Textbound" where
  "make_textbound kv = (case kv of (_, (s, e, types, text)) \<Rightarrow> Textbound s e (join_with ''-'' types) text)"

definition parse_textbounds :: "options \<Rightarrow> string list \<Rightarrow> py_error + Textbound list" where
  "parse_textbounds opts f =
     (case parse_lines f ([], []) of
        Inl err \<Rightarrow> Inl err
      | Inr (mapping, atts) \<Rightarrow>
          (case (if attributes opts then append_attributes (sort atts) mapping else Inr mapping) of
             Inl err \<Rightarrow> Inl err
           | Inr mapping' \<Rightarrow> Inr (map make_textbound mapping')))"

text \<open>
  A textbound line that the loop cannot read: it does not split into three TAB-separated
  fields, or its middle field does not split into a type and two offsets, or an offset is
  not an integer literal.
\<close>

definition malformed_textbound :: "string \<Rightarrow> bool" where
  "malformed_textbound l =
     (case split_on TAB l of
        [id_, type_offsets, text] \<Rightarrow>
          (case split_ws type_offsets of
             [type_, start, end] \<Rightarrow> py_int start = None \<or> py_int end = None
           | _ \<Rightarrow> True)
      | _ \<Rightarrow> True)"

definition attribute_options :: options where
  "attribute_options = \<lparr>singleclass = None, attributes = True, preprocess = PreRegex\<rparr>"

definition good_textbound_line :: string where
  "good_textbound_line = ''T1'' @ [TAB] @ ''PER 0 4'' @ [TAB] @ ''John''"

definition bad_offset_line :: string where
  "bad_offset_line = ''T1'' @ [TAB] @ ''PER 0 x'' @ [TAB] @ ''John''"

definition attribute_line :: string where
  "attribute_line = ''A1'' @ [TAB] @ ''Negated T1''"

definition orphan_attribute_line :: string where
  "orphan_attribute_line = ''A2'' @ [TAB] @ ''Negated T2''"

text \<open>An attribute record, as the loop reads it: the pair it appends to \<open>attributes\<close>.\<close>

definition attribute_record :: "string \<Rightarrow> (string \<times> string) option" where
  "attribute_record raw =
     (let l = rstrip_newline raw
      in if \<not> TEXTBOUND_LINE_RE_search l \<and> ATTRIBUTE_LINE_RE_match l
         then (case parse_attribute l of Inl _ \<Rightarrow> None | Inr tid_att \<Rightarrow> Some tid_att)
         else None)"

text \<open>
  \<open>get_annotations\<close>, lines 342 to 347, on the lines of the annotation file: the parsed
  spans go through \<open>eliminate_overlaps\<close>.
\<close>

definition get_annotations ::
  "options \<Rightarrow> string list \<Rightarrow> py_error + Textbound list \<times> (Textbound \<times> Textbound) list" where
  "get_annotations opts annfile =
     (case parse_textbounds opts annfile of
        Inl err \<Rightarrow> Inl err
      | Inr textbounds \<Rightarrow> Inr (eliminate_overlaps textbounds))"

section \<open>The reverse offset mapper (tools/conllpos_to_standoff.py)\<close>

text \<open>
  A token of \<open>conlldata\<close> is the list \<open>[lineno] + line.strip().split()\<close>: the line number
  and the columns, so that \<open>conlltok[k]\<close> for \<open>k\<close> from 1 is column \<open>k - 1\<close>.
\<close>

type_synonym conlltok = "int \<times> string list"

text \<open>
  \<open>tokstr\<close> formats \<open>'T%d\t%s %d %d\t%s' % (idnum, ttype, start, end, text)\<close>; the line is
  kept as the five values it is formatted from.
\<close>

datatype standoff_line =
  StandoffLine (sl_idnum: int) (sl_ttype: string) (sl_start: int) (sl_end: int) (sl_text: string)

definition tokstr :: "int \<Rightarrow> int \<Rightarrow> string \<Rightarrow> int \<Rightarrow> string \<Rightarrow> py_error + standoff_line" where
  "tokstr start end ttype idnum text =
     (if NEWLINE \<in> set text then Inl ValueError
      else if text \<noteq> strip text then Inl ValueError
      else Inr (StandoffLine idnum ttype start end text))"

text \<open>
  The state of the loop of \<open>main\<close> over one document: the segment number, the next id, the
  running offset, the lines printed to the open \<open>.ann\<close> and \<open>.txt\<close> files, and the file
  pairs already closed, each with its segment number (which is in its name).
\<close>

type_synonym segment_files = "int \<times> standoff_line list \<times> string list"

record writer =
  w_segment :: int
  w_idnum :: int
  w_offset :: int
  w_out :: "standoff_line list"
  w_out2 :: "string list"
  w_closed :: "segment_files list"

text \<open>
  Lines 91 to 97, the body of the loop over the tokens of a sentence. \<open>conlltok[5]\<close> is read
  first (\<open>IndexError\<close> on a short row), then \<open>pos.index('[')\<close> (\<open>ValueError\<close> without a
  bracket), then \<open>conlltok[4]\<close>.
\<close>

definition write_token :: "conlltok \<times> string \<Rightarrow> writer \<Rightarrow> py_error + writer" where
  "write_token ct st =
     (let cols = snd (fst ct)
      in if length cols \<le> 4 then Inl IndexError
         else let pos = cols ! 4
              in if CHR ''['' \<notin> set pos then Inl ValueError
                 else let pos' = takeWhile (\<lambda>c. c \<noteq> CHR ''['') pos;
                          text = cols ! 3
                      in case tokstr (w_offset st) (w_offset st + int (length text)) pos'
                                (w_idnum st) text of
                           Inl err \<Rightarrow> Inl err
                         | Inr printed \<Rightarrow>
                             Inr (st\<lparr>w_out := w_out st @ [printed],
                                     w_offset := w_offset st + int (length text) + 1,
                                     w_idnum := w_idnum st + 1\<rparr>))"

fun write_tokens :: "(conlltok \<times> string) list \<Rightarrow> writer \<Rightarrow> py_error + writer" where
  "write_tokens [] st = Inr st"
| "write_tokens (ct # rest) st =
     (case write_token ct st of Inl err \<Rightarrow> Inl err | Inr st' \<Rightarrow> write_tokens rest st')"

text \<open>\<open>s.replace(' ', '|', 1)\<close> replaces the first space.\<close>

fun replace_first :: "char \<Rightarrow> char \<Rightarrow> string \<Rightarrow> string" where
  "replace_first a b [] = []"
| "replace_first a b (c # cs) = (if c = a then b # cs else c # replace_first a b cs)"

text \<open>
  Lines 84 to 98: one sentence. The lengths are compared first; \<open>toksent[0]\<close> raises
  \<open>IndexError\<close> on an empty list.
\<close>

definition write_sentence :: "conlltok list \<times> string list \<Rightarrow> writer \<Rightarrow> py_error + writer" where
  "write_sentence cs st =
     (case cs of (conllsent, toksent) \<Rightarrow>
        if length conllsent \<noteq> length (drop 1 toksent) then Inl ValueError
        else (case toksent of
                [] \<Rightarrow> Inl IndexError
              | key # toks \<Rightarrow>
                  (case write_tokens (zip conllsent toks)
                          (st\<lparr>w_offset := w_offset st + int (length key) + 1\<rparr>) of
                     Inl err \<Rightarrow> Inl err
                   | Inr st' \<Rightarrow>
                       Inr (st'\<lparr>w_out2 := w_out2 st' @
                              [replace_first (CHR '' '') (CHR ''|'') (join_with '' '' toksent)]\<rparr>))))"

text \<open>Lines 99 to 108: after a sentence, a new segment once \<open>idnum >= 1000\<close>.\<close>

definition next_segment :: "writer \<Rightarrow> writer" where
  "next_segment st =
     (if w_idnum st \<ge> 1000
      then \<lparr>w_segment = w_segment st + 1, w_idnum = 1, w_offset = 0, w_out = [], w_out2 = [],
            w_closed = w_closed st @ [(w_segment st, w_out st, w_out2 st)]\<rparr>
      else st)"

fun write_sentences :: "(conlltok list \<times> string list) list \<Rightarrow> writer \<Rightarrow> py_error + writer" where
  "write_sentences [] st = Inr st"
| "write_sentences (cs # rest) st =
     (case write_sentence cs st of
        Inl err \<Rightarrow> Inl err
      | Inr st' \<Rightarrow> write_sentences rest (next_segment st'))"

text \<open>
  Lines 76 to 110 of \<open>main\<close> for one document: the check of the sentence counts, the first
  segment opened with \<open>idnum = 1\<close> and \<open>offset = 0\<close>, the loop, and the last pair closed.
  The result is the list of file pairs in the order of their segment numbers.
\<close>

definition first_segment :: writer where
  "first_segment =
     \<lparr>w_segment = 1, w_idnum = 1, w_offset = 0, w_out = [], w_out2 = [], w_closed = []\<rparr>"

definition main_document ::
  "conlltok list list \<Rightarrow> string list list \<Rightarrow> py_error + segment_files list" where
  "main_document conlldata tokenized =
     (if length conlldata \<noteq> length tokenized then Inl ValueError
      else (case write_sentences (zip conlldata tokenized) first_segment of
              Inl err \<Rightarrow> Inl err
            | Inr st \<Rightarrow> Inr (w_closed st @ [(w_segment st, w_out st, w_out2 st)])))"

text \<open>The number of tokens of a document, and the ids in a \<open>.ann\<close> file.\<close>

definition token_count :: "conlltok list list \<Rightarrow> nat" where
  "token_count conlldata = sum_list (map length conlldata)"

definition ids :: "standoff_line list \<Rightarrow> int list" where
  "ids printed = map sl_idnum printed"

text \<open>A small document, and a document of 1001 sentences of one token each.\<close>

definition example_conlltok :: conlltok where
  "example_conlltok = (3, [''0'', ''0'', ''0'', ''dog'', ''NN[sg'', ''x''])"

definition short_conlldata :: "conlltok list list" where
  "short_conlldata = [[example_conlltok, example_conlltok], [example_conlltok]]"

definition short_tokenized :: "string list list" where
  "short_tokenized = [[''s1'', ''dog'', ''dog''], [''s2'', ''dog'']]"

definition long_conlldata :: "conlltok list list" where
  "long_conlldata = replicate 1001 [example_conlltok]"

definition long_tokenized :: "string list list" where
  "long_tokenized = replicate 1001 [''s1'', ''dog'']"

text \<open>
  The same state in a later segment: the segment numbers moved by \<open>d\<close> and the file pairs
  \<open>cl\<close> closed before. A sentence that the loop can write: the counts agree, the key is
  there, and every row has its text and a bracketed part of speech.
\<close>

definition relocate :: "int \<Rightarrow> segment_files list \<Rightarrow> writer \<Rightarrow> writer" where
  "relocate d cl st =
     st\<lparr>w_segment := w_segment st + d,
        w_closed := cl @ map (\<lambda>(s, printed, copied). (s + d, printed, copied)) (w_closed st)\<rparr>"

definition token_ok :: "conlltok \<Rightarrow> bool" where
  "token_ok ct =
     (4 < length (snd ct) \<and> CHR ''['' \<in> set (snd ct ! 4) \<and>
      NEWLINE \<notin> set (snd ct ! 3) \<and> snd ct ! 3 = strip (snd ct ! 3))"

definition sentence_ok :: "conlltok list \<times> string list \<Rightarrow> bool" where
  "sentence_ok cs =
     (length (fst cs) = length (drop 1 (snd cs)) \<and> snd cs \<noteq> [] \<and> list_all token_ok (fst cs))"

section \<open>Overlap resolution: proofs\<close>

lemma eliminate_step_flags:
  "eliminate_step i t1 y (e, p) = (e', p') \<Longrightarrow>
     p' = p @ flags (i, t1) y \<and> dom e' = dom e \<union> fst ` set (flags (i, t1) y)"
  by (cases y) (auto simp: flags_def overlaps_def span_length_def split: if_splits)

lemma fold_step_flags:
  "fold (eliminate_step i t1) ys (e, p) = (e', p') \<Longrightarrow>
     p' = p @ concat (map (flags (i, t1)) ys) \<and>
     dom e' = dom e \<union> fst ` set (concat (map (flags (i, t1)) ys))"
proof (induction ys arbitrary: e p)
  case Nil
  then show ?case by simp
next
  case (Cons y ys)
  obtain e1 p1 where s: "eliminate_step i t1 y (e, p) = (e1, p1)"
    by (cases "eliminate_step i t1 y (e, p)")
  from Cons.prems s have "fold (eliminate_step i t1) ys (e1, p1) = (e', p')" by simp
  from Cons.IH[OF this] eliminate_step_flags[OF s] show ?case
    by (simp add: image_Un Un_assoc)
qed

lemma fold_outer_flags:
  "fold (\<lambda>(i, t1). fold (eliminate_step i t1) ys) xs (e, p) = (e', p') \<Longrightarrow>
     p' = p @ concat (map (\<lambda>x. concat (map (flags x) ys)) xs) \<and>
     dom e' = dom e \<union> fst ` set (concat (map (\<lambda>x. concat (map (flags x) ys)) xs))"
proof (induction xs arbitrary: e p)
  case Nil
  then show ?case by simp
next
  case (Cons x xs)
  obtain i t1 where x: "x = (i, t1)" by (cases x)
  obtain e1 p1 where s: "fold (eliminate_step i t1) ys (e, p) = (e1, p1)"
    by (cases "fold (eliminate_step i t1) ys (e, p)")
  from Cons.prems s x
  have "fold (\<lambda>(i, t1). fold (eliminate_step i t1) ys) xs (e1, p1) = (e', p')" by simp
  from Cons.IH[OF this] fold_step_flags[OF s] x show ?case
    by (simp add: image_Un Un_assoc)
qed

lemma eliminate_loops_flags:
  assumes "eliminate_loops ts = (e, p)"
  shows "p = concat (map (\<lambda>x. concat (map (flags x) (enumerate 0 ts))) (enumerate 0 ts))"
    and "dom e = fst ` set p"
  using fold_outer_flags[of "enumerate 0 ts" "enumerate 0 ts" Map.empty "[]" e p] assms
  by (simp_all add: eliminate_loops_def Let_def)

lemma flags_iff:
  "(a, b) \<in> set (flags (i, t1) (j, t2)) \<longleftrightarrow>
     i \<noteq> j \<and> overlaps t1 t2 \<and>
     (if span_length t1 > span_length t2 then a = t2 \<and> b = t1 else a = t1 \<and> b = t2)"
  by (simp add: flags_def)

lemma printed_iff:
  assumes "eliminate_loops ts = (e, p)"
  shows "(a, b) \<in> set p \<longleftrightarrow>
     (\<exists>i j. i < length ts \<and> j < length ts \<and> i \<noteq> j \<and> overlaps (ts ! i) (ts ! j) \<and>
        (if span_length (ts ! i) > span_length (ts ! j)
         then a = ts ! j \<and> b = ts ! i else a = ts ! i \<and> b = ts ! j))"
  (is "?L \<longleftrightarrow> ?R")
proof
  assume ?L
  then obtain x y where x: "x \<in> set (enumerate 0 ts)" and y: "y \<in> set (enumerate 0 ts)"
    and f: "(a, b) \<in> set (flags x y)"
    unfolding eliminate_loops_flags(1)[OF assms] by auto
  obtain i t1 j t2 where xy: "x = (i, t1)" "y = (j, t2)" by (cases x, cases y)
  from x y xy have "i < length ts" "j < length ts" "t1 = ts ! i" "t2 = ts ! j"
    by (simp_all add: in_set_enumerate_eq)
  with f xy show ?R unfolding flags_iff xy by blast
next
  assume ?R
  then obtain i j where ij: "i < length ts" "j < length ts"
    and f: "(a, b) \<in> set (flags (i, ts ! i) (j, ts ! j))"
    unfolding flags_iff by blast
  from ij have "(i, ts ! i) \<in> set (enumerate 0 ts)" "(j, ts ! j) \<in> set (enumerate 0 ts)"
    by (simp_all add: in_set_enumerate_eq)
  with f show ?L
    unfolding eliminate_loops_flags(1)[OF assms] by auto
qed


lemma overlaps_sym: "overlaps a b = overlaps b a"
  by (auto simp: overlaps_def)

lemma filter_nth_pair:
  assumes "i < j" "j < length (filter P xs)"
  shows "\<exists>i' j'. i' < j' \<and> j' < length xs \<and> xs ! i' = filter P xs ! i \<and> xs ! j' = filter P xs ! j"
proof -
  let ?Q = "\<lambda>a b. \<exists>i' j'. i' < j' \<and> j' < length xs \<and> xs ! i' = a \<and> xs ! j' = b"
  have "sorted_wrt ?Q xs"
    unfolding sorted_wrt_iff_nth_less by blast
  then have "sorted_wrt ?Q (filter P xs)"
    by (rule sorted_wrt_filter)
  with assms show ?thesis
    unfolding sorted_wrt_iff_nth_less by blast
qed

lemma eliminate_overlaps_unfold:
  assumes "eliminate_loops ts = (e, p)"
  shows "eliminate_overlaps ts = ([t \<leftarrow> ts. e t = None], p)"
  using assms by (simp add: eliminate_overlaps_def)

lemma kept_pair_disjoint:
  assumes l: "eliminate_loops ts = (e, p)"
    and ij: "i < j" "j < length ts" and keep: "e (ts ! i) = None" "e (ts ! j) = None"
  shows "\<not> overlaps (ts ! i) (ts ! j)"
proof
  assume o: "overlaps (ts ! i) (ts ! j)"
  from ij have b: "i < length ts" "i \<noteq> j" by simp_all
  have "\<exists>a b. (a, b) \<in> set p \<and> (a = ts ! i \<or> a = ts ! j)"
  proof (cases "span_length (ts ! i) > span_length (ts ! j)")
    case True
    with o b ij have "(ts ! j, ts ! i) \<in> set p"
      unfolding printed_iff[OF l] by (intro exI[of _ i] exI[of _ j]) simp
    then show ?thesis by blast
  next
    case False
    with o b ij have "(ts ! i, ts ! j) \<in> set p"
      unfolding printed_iff[OF l] by (intro exI[of _ i] exI[of _ j]) simp
    then show ?thesis by blast
  qed
  then obtain a b where "(a, b) \<in> set p" "a = ts ! i \<or> a = ts ! j" by blast
  then have "ts ! i \<in> fst ` set p \<or> ts ! j \<in> fst ` set p" by force
  with keep show False
    unfolding eliminate_loops_flags(2)[OF l, symmetric] by auto
qed

lemma eliminated_has_cause:
  assumes l: "eliminate_loops ts = (e, p)" and k: "k < length ts" and gone: "e (ts ! k) \<noteq> None"
  shows "\<exists>m. m < length ts \<and> m \<noteq> k \<and> overlaps (ts ! k) (ts ! m) \<and>
            span_length (ts ! k) \<le> span_length (ts ! m)"
proof -
  from gone have "ts ! k \<in> fst ` set p"
    unfolding eliminate_loops_flags(2)[OF l, symmetric] by auto
  then obtain b where "(ts ! k, b) \<in> set p" by auto
  then obtain i j where ij: "i < length ts" "j < length ts" "i \<noteq> j" "overlaps (ts ! i) (ts ! j)"
    and c: "if span_length (ts ! i) > span_length (ts ! j)
            then ts ! k = ts ! j \<and> b = ts ! i else ts ! k = ts ! i \<and> b = ts ! j"
    unfolding printed_iff[OF l] by blast
  have "\<exists>u v. u < length ts \<and> v < length ts \<and> u \<noteq> v \<and> ts ! u = ts ! k \<and>
          overlaps (ts ! u) (ts ! v) \<and> span_length (ts ! u) \<le> span_length (ts ! v)"
  proof (cases "span_length (ts ! i) > span_length (ts ! j)")
    case True
    with c ij show ?thesis
      by (intro exI[of _ j] exI[of _ i]) (simp add: overlaps_sym)
  next
    case False
    with c ij show ?thesis
      by (intro exI[of _ i] exI[of _ j]) simp
  qed
  then obtain u v where uv: "u < length ts" "v < length ts" "u \<noteq> v" "ts ! u = ts ! k"
    "overlaps (ts ! u) (ts ! v)" "span_length (ts ! u) \<le> span_length (ts ! v)" by blast
  show ?thesis
  proof (cases "v = k")
    case True
    with uv show ?thesis by (intro exI[of _ u]) auto
  next
    case False
    with uv show ?thesis by (intro exI[of _ v]) auto
  qed
qed

lemma kept_spans_disjoint:
  assumes l: "eliminate_loops ts = (e, p)"
    and ij: "i < length [t \<leftarrow> ts. e t = None]" "j < length [t \<leftarrow> ts. e t = None]" "i \<noteq> j"
  shows "\<not> overlaps ([t \<leftarrow> ts. e t = None] ! i) ([t \<leftarrow> ts. e t = None] ! j)"
proof -
  let ?out = "[t \<leftarrow> ts. e t = None]"
  have ordered: "\<not> overlaps (?out ! i) (?out ! j)" if "i < j" "j < length ?out" for i j
  proof -
    from filter_nth_pair[OF that] obtain i' j' where
      p: "i' < j'" "j' < length ts" "ts ! i' = ?out ! i" "ts ! j' = ?out ! j" by blast
    from that have "i < length ?out" "j < length ?out" by simp_all
    then have "?out ! i \<in> set ?out" "?out ! j \<in> set ?out"
      using nth_mem by blast+
    moreover have "e x = None" if "x \<in> set ?out" for x using that by simp
    ultimately have "e (?out ! i) = None" "e (?out ! j) = None" by blast+
    with p kept_pair_disjoint[OF l p(1,2)] show ?thesis by simp
  qed
  show ?thesis
  proof (cases "i < j")
    case True
    with ij ordered show ?thesis by blast
  next
    case False
    with ij have "j < i" by simp
    with ij ordered[of j i] show ?thesis by (simp add: overlaps_sym)
  qed
qed

text \<open>What \<open>eliminate_overlaps\<close> returns is a span list without overlaps.\<close>

lemma eliminate_overlaps_nonoverlapping: "nonoverlapping (fst (eliminate_overlaps ts))"
proof -
  obtain e p where l: "eliminate_loops ts = (e, p)" by (cases "eliminate_loops ts")
  show ?thesis
    unfolding nonoverlapping_def eliminate_overlaps_unfold[OF l] fst_conv
    using kept_spans_disjoint[OF l] by blast
qed

text \<open>
  Claim C1. For every list of spans, the list returned by \<open>eliminate_overlaps\<close> is a
  subsequence of the input in the original order; no two spans at distinct positions of it
  overlap; and every input span that was eliminated is overlapped by a span at another
  position of the input whose length is greater than or equal to its own.
\<close>

theorem eliminate_overlaps_resolves:
  "subseq (fst (eliminate_overlaps ts)) ts \<and>
   (\<forall>i j. i < length (fst (eliminate_overlaps ts)) \<and> j < length (fst (eliminate_overlaps ts)) \<and> i \<noteq> j
      \<longrightarrow> \<not> overlaps (fst (eliminate_overlaps ts) ! i) (fst (eliminate_overlaps ts) ! j)) \<and>
   (\<forall>k. k < length ts \<and> ts ! k \<notin> set (fst (eliminate_overlaps ts))
      \<longrightarrow> (\<exists>m. m < length ts \<and> m \<noteq> k \<and> overlaps (ts ! k) (ts ! m) \<and>
                span_length (ts ! k) \<le> span_length (ts ! m)))"
proof -
  obtain e p where l: "eliminate_loops ts = (e, p)" by (cases "eliminate_loops ts")
  let ?out = "[t \<leftarrow> ts. e t = None]"
  have out: "fst (eliminate_overlaps ts) = ?out"
    by (simp add: eliminate_overlaps_unfold[OF l])
  have a: "subseq ?out ts" by simp
  have b: "\<not> overlaps (?out ! i) (?out ! j)" if "i < length ?out" "j < length ?out" "i \<noteq> j" for i j
    using kept_spans_disjoint[OF l that] .
  have c: "\<exists>m. m < length ts \<and> m \<noteq> k \<and> overlaps (ts ! k) (ts ! m) \<and>
                span_length (ts ! k) \<le> span_length (ts ! m)"
    if "k < length ts" "ts ! k \<notin> set ?out" for k
  proof -
    from that have "e (ts ! k) \<noteq> None" by auto
    from eliminated_has_cause[OF l that(1) this] show ?thesis .
  qed
  from a b c show ?thesis unfolding out by blast
qed

text \<open>Example 2 of the specification: the shorter span \<open>{4,10,B}\<close> is eliminated.\<close>

theorem eliminate_overlaps_resolves_witness:
  "fst (eliminate_overlaps example_spans) = [Textbound 0 7 ''A'' ''abcdefg''] \<and>
   subseq (fst (eliminate_overlaps example_spans)) example_spans \<and>
   (\<exists>m. m < length example_spans \<and> m \<noteq> 1 \<and> overlaps (example_spans ! 1) (example_spans ! m) \<and>
        span_length (example_spans ! 1) \<le> span_length (example_spans ! m))"
proof -
  have v: "fst (eliminate_overlaps example_spans) = [Textbound 0 7 ''A'' ''abcdefg'']"
    by (simp add: example_spans_def eliminate_overlaps_def eliminate_loops_def)
  have "1 < length example_spans \<and> example_spans ! 1 \<notin> set (fst (eliminate_overlaps example_spans))"
    unfolding v by (simp add: example_spans_def)
  with eliminate_overlaps_resolves[of example_spans] v show ?thesis by blast
qed

text \<open>
  Claim C7. Two overlapping spans of exactly equal length at distinct positions of the input
  are both flagged: the pass whose outer span is the one prints and flags it because of the
  other, and conversely; both are keys of \<open>eliminate\<close>, and neither is in the output.
\<close>

theorem equal_length_tie_eliminates_both:
  assumes "i < length ts" "j < length ts" "i \<noteq> j"
    and "overlaps (ts ! i) (ts ! j)" and "span_length (ts ! i) = span_length (ts ! j)"
  shows "(ts ! i, ts ! j) \<in> set (snd (eliminate_overlaps ts)) \<and>
         (ts ! j, ts ! i) \<in> set (snd (eliminate_overlaps ts)) \<and>
         ts ! i \<in> dom (fst (eliminate_loops ts)) \<and>
         ts ! j \<in> dom (fst (eliminate_loops ts)) \<and>
         ts ! i \<notin> set (fst (eliminate_overlaps ts)) \<and>
         ts ! j \<notin> set (fst (eliminate_overlaps ts))"
proof -
  obtain e p where l: "eliminate_loops ts = (e, p)" by (cases "eliminate_loops ts")
  from assms have 1: "(ts ! i, ts ! j) \<in> set p"
    unfolding printed_iff[OF l] by (intro exI[of _ i] exI[of _ j]) simp
  from assms have 2: "(ts ! j, ts ! i) \<in> set p"
    unfolding printed_iff[OF l] by (intro exI[of _ j] exI[of _ i]) (simp add: overlaps_sym)
  from 1 2 have "ts ! i \<in> fst ` set p" "ts ! j \<in> fst ` set p" by force+
  then have d: "ts ! i \<in> dom e" "ts ! j \<in> dom e"
    unfolding eliminate_loops_flags(2)[OF l] by simp_all
  then have "e (ts ! i) \<noteq> None" "e (ts ! j) \<noteq> None" by auto
  with 1 2 d show ?thesis
    by (simp add: eliminate_overlaps_unfold[OF l] l)
qed


theorem equal_length_tie_eliminates_both_witness:
  "overlaps (tie_spans ! 0) (tie_spans ! 1) \<and>
   span_length (tie_spans ! 0) = span_length (tie_spans ! 1) \<and>
   tie_spans ! 0 \<notin> set (fst (eliminate_overlaps tie_spans)) \<and>
   tie_spans ! 1 \<notin> set (fst (eliminate_overlaps tie_spans)) \<and>
   fst (eliminate_overlaps tie_spans) = []"
proof -
  have h: "0 < length tie_spans" "1 < length tie_spans" "(0::nat) \<noteq> 1"
    "overlaps (tie_spans ! 0) (tie_spans ! 1)"
    "span_length (tie_spans ! 0) = span_length (tie_spans ! 1)"
    by (simp_all add: tie_spans_def overlaps_def span_length_def)
  have "fst (eliminate_overlaps tie_spans) = []"
    by (simp add: tie_spans_def eliminate_overlaps_def eliminate_loops_def)
  with equal_length_tie_eliminates_both[OF h] h show ?thesis by simp
qed

section \<open>Stripping and attaching labels: proofs\<close>

lemma split_on_nonempty: "split_on sep s \<noteq> []"
  by (induction s) (auto split: list.splits)

lemma join_split_on: "join_with [sep] (split_on sep s) = s"
proof (induction s)
  case Nil
  then show ?case by simp
next
  case (Cons c cs)
  obtain f fs where s: "split_on sep cs = f # fs"
    using split_on_nonempty[of sep cs] by (cases "split_on sep cs") auto
  with Cons show ?case by (cases fs) auto
qed

lemma split_on_first:
  assumes "sep \<notin> set a"
  shows "split_on sep (a @ sep # r) = a # split_on sep r"
  using assms by (induction a) auto

lemma strip_labels_fold:
  "fold (\<lambda>l (labels, stripped).
             if EMPTY_LINE_RE_match l then (labels @ [None], stripped @ [l])
             else (let fields = split_on TAB l
                   in (labels @ [Some (hd fields)], stripped @ [join_with [TAB] (tl fields)])))
          lines (ls, ss) =
   (ls @ map (\<lambda>l. if EMPTY_LINE_RE_match l then None else Some (hd (split_on TAB l))) lines,
    ss @ map (\<lambda>l. if EMPTY_LINE_RE_match l then l else join_with [TAB] (tl (split_on TAB l))) lines)"
  by (induction lines arbitrary: ls ss) (simp_all add: Let_def)

lemma strip_labels_map:
  "strip_labels lines =
   (map (\<lambda>l. if EMPTY_LINE_RE_match l then None else Some (hd (split_on TAB l))) lines,
    map (\<lambda>l. if EMPTY_LINE_RE_match l then l else join_with [TAB] (tl (split_on TAB l))) lines)"
  unfolding strip_labels_def strip_labels_fold by simp

lemma attach_loop_roundtrip:
  assumes "list_all roundtrips lines"
  shows "attach_loop (zip (map (\<lambda>l. if EMPTY_LINE_RE_match l then None else Some (hd (split_on TAB l))) lines)
            (map (\<lambda>l. if EMPTY_LINE_RE_match l then l else join_with [TAB] (tl (split_on TAB l))) lines)) acc
         = Inr (acc @ lines)"
  using assms
proof (induction lines arbitrary: acc)
  case Nil
  then show ?case by simp
next
  case (Cons l ls)
  then show ?case by (auto simp: roundtrips_def Let_def)
qed

lemma isspace_TAB: "isspace TAB"
  by (simp add: isspace_def TAB_def)

lemma isdigit_not_space: "isdigit c \<Longrightarrow> \<not> isspace c"
  by (auto simp: isdigit_def isspace_def)

lemma conll_line_roundtrips:
  assumes "CONLL_LINE_RE_search l"
  shows "roundtrips l"
proof -
  define a where "a = takeWhile (\<lambda>c. \<not> isspace c) l"
  define r1 where "r1 = dropWhile (\<lambda>c. \<not> isspace c) l"
  have l: "l = a @ r1" by (simp add: a_def r1_def)
  from assms have a: "a \<noteq> []" 
    by (simp add: CONLL_LINE_RE_search_def Let_def a_def)
  from assms obtain r1' where r1: "r1 = TAB # r1'" and d: "takeWhile isdigit r1' \<noteq> []"
    by (auto simp: CONLL_LINE_RE_search_def Let_def r1_def split: list.splits)
  have "\<forall>c \<in> set a. \<not> isspace c" unfolding a_def by (auto dest: set_takeWhileD)
  then have nt: "TAB \<notin> set a" using isspace_TAB by blast
  from a have "\<not> isspace (hd a)" unfolding a_def
    by (metis (mono_tags, lifting) hd_in_set set_takeWhileD)
  with a l have ne: "\<not> EMPTY_LINE_RE_match l"
    by (cases a) (auto simp: EMPTY_LINE_RE_match_def)
  from d obtain x xs where x: "r1' = x # xs" "isdigit x"
    by (cases r1') (auto split: if_splits)
  have sp: "split_on TAB l = a # split_on TAB r1'"
    unfolding l r1 using split_on_first[OF nt] by simp
  have "\<not> EMPTY_LINE_RE_match r1'"
    using x isdigit_not_space by (auto simp: EMPTY_LINE_RE_match_def)
  then show ?thesis
    unfolding roundtrips_def sp by (simp add: join_split_on l r1)
qed

text \<open>
  Claim C9. For every list of CoNLL-format lines (each line empty or matching
  \<open>CONLL_LINE_RE\<close>) in which each non-empty line contains a TAB, \<open>strip_labels\<close> followed by
  \<open>attach_labels\<close> with the returned labels raises no assertion and returns the original
  list of lines.
\<close>

theorem strip_attach_roundtrip:
  assumes "conll_format lines"
    and "\<forall>l \<in> set lines. \<not> EMPTY_LINE_RE_match l \<longrightarrow> TAB \<in> set l"
  shows "(case strip_labels lines of (labels, stripped) \<Rightarrow> attach_labels labels stripped) = Inr lines"
proof -
  from assms(1) have "list_all roundtrips lines"
    unfolding conll_format_def list_all_iff roundtrips_def[symmetric]
    using conll_line_roundtrips by (auto simp: roundtrips_def)
  from attach_loop_roundtrip[OF this, of "[]"] show ?thesis
    by (simp add: strip_labels_map attach_labels_def)
qed

theorem strip_attach_roundtrip_witness:
  "conll_format example_conll \<and>
   (case strip_labels example_conll of (labels, stripped) \<Rightarrow> attach_labels labels stripped) = Inr example_conll"
proof -
  have c: "conll_format example_conll"
    by (simp add: conll_format_def example_conll_def CONLL_LINE_RE_search_def EMPTY_LINE_RE_match_def
        isspace_def isdigit_def TAB_def NEWLINE_def)
  have t: "\<forall>l \<in> set example_conll. \<not> EMPTY_LINE_RE_match l \<longrightarrow> TAB \<in> set l"
    by (simp add: example_conll_def EMPTY_LINE_RE_match_def isspace_def TAB_def NEWLINE_def)
  from strip_attach_roundtrip[OF c t] c show ?thesis by simp
qed

text \<open>
  The CoNLL format of the lines is needed: a non-empty line with a TAB and nothing but
  whitespace after it is stripped to an empty line, and the second assertion of
  \<open>attach_labels\<close> fails.
\<close>

lemma tab_alone_is_not_enough:
  "(case strip_labels [''X'' @ [TAB]] of (labels, stripped) \<Rightarrow> attach_labels labels stripped)
     = Inl AssertionError"
  by (simp add: strip_labels_def attach_labels_def EMPTY_LINE_RE_match_def isspace_def TAB_def)

section \<open>Label projection: proofs\<close>

lemma relabel_loop_length: "length (fst (relabel_loop ol fn ls prev)) = length ls"
  by (induction ol fn ls prev rule: relabel_loop.induct) (auto split: prod.splits)

lemma relabel_loop_nth:
  "k < length ls \<Longrightarrow>
   fst (relabel_loop ol fn ls prev) ! k =
     retag (if k = 0 then prev else label_of ol fn (ls ! (k - 1))) (label_of ol fn (ls ! k)) (ls ! k)"
proof (induction ol fn ls prev arbitrary: k rule: relabel_loop.induct)
  case (1 ol fn prev)
  then show ?case by simp
next
  case (2 ol fn rest prev)
  obtain d p where r: "relabel_loop ol fn rest None = (d, p)"
    by (cases "relabel_loop ol fn rest None")
  show ?case
  proof (cases k)
    case 0
    then show ?thesis by (simp add: retag_def r)
  next
    case (Suc j)
    with "2.prems" have j: "j < length rest" by simp
    from "2.IH"[OF j] Suc r show ?thesis
      by (cases j) (simp_all add: label_of_def)
  qed
next
  case (3 ol fn tag start stop token rest prev)
  obtain label p1 where f: "find_label ol fn start token [start .. stop - 1] = (label, p1)"
    by (cases "find_label ol fn start token [start .. stop - 1]")
  obtain d p where r: "relabel_loop ol fn rest label = (d, p)"
    by (cases "relabel_loop ol fn rest label")
  show ?case
  proof (cases k)
    case 0
    with f r show ?thesis by (cases label) (simp_all add: retag_def label_of_def)
  next
    case (Suc j)
    with "3.prems" have j: "j < length rest" by simp
    from "3.IH"[OF f[symmetric] j] Suc f r show ?thesis
      by (cases j) (simp_all add: label_of_def)
  qed
qed

lemma relabel_loop_printed:
  "k < length ls \<Longrightarrow> ls ! k = Some t \<Longrightarrow>
   set (snd (find_label ol fn (tl_start t) (tl_token t) [tl_start t .. tl_end t - 1]))
     \<subseteq> set (snd (relabel_loop ol fn ls prev))"
proof (induction ol fn ls prev arbitrary: k rule: relabel_loop.induct)
  case (1 ol fn prev)
  then show ?case by simp
next
  case (2 ol fn rest prev)
  obtain d p where r: "relabel_loop ol fn rest None = (d, p)"
    by (cases "relabel_loop ol fn rest None")
  show ?case
  proof (cases k)
    case 0
    with "2.prems" show ?thesis by simp
  next
    case (Suc j)
    with "2.prems" have j: "j < length rest" "rest ! j = Some t" by simp_all
    from "2.IH"[OF j] r show ?thesis by simp
  qed
next
  case (3 ol fn tag start stop token rest prev)
  obtain label p1 where f: "find_label ol fn start token [start .. stop - 1] = (label, p1)"
    by (cases "find_label ol fn start token [start .. stop - 1]")
  obtain d p where r: "relabel_loop ol fn rest label = (d, p)"
    by (cases "relabel_loop ol fn rest label")
  show ?case
  proof (cases k)
    case 0
    with "3.prems" f r show ?thesis by auto
  next
    case (Suc j)
    with "3.prems" have j: "j < length rest" "rest ! j = Some t" by simp_all
    from "3.IH"[OF f[symmetric] j] f r show ?thesis by auto
  qed
qed


lemma claim_fold_map:
  "fst (fold (claim_offset fn tb) xs (m, p)) i = (if i \<in> set xs then Some tb else m i)"
  by (induction xs arbitrary: m p) (auto simp: claim_offset_def)

lemma build_fold_None:
  "fst (fold (\<lambda>tb. fold (claim_offset fn tb) [tb_start tb .. tb_end tb - 1]) anns (m, p)) i = None
     \<longleftrightarrow> m i = None \<and> \<not> claimed anns i"
proof (induction anns arbitrary: m p)
  case Nil
  then show ?case by (simp add: claimed_def)
next
  case (Cons a anns)
  obtain m1 p1 where s: "fold (claim_offset fn a) [tb_start a .. tb_end a - 1] (m, p) = (m1, p1)"
    by (cases "fold (claim_offset fn a) [tb_start a .. tb_end a - 1] (m, p)")
  have m1: "m1 i = (if covers a i then Some a else m i)"
    using claim_fold_map[of fn a "[tb_start a .. tb_end a - 1]" m p i] s
    by (auto simp: covers_def)
  show ?case
    using Cons.IH[of m1 p1] s m1 by (auto simp: claimed_def)
qed

lemma build_fold_Some:
  "fst (fold (\<lambda>tb. fold (claim_offset fn tb) [tb_start tb .. tb_end tb - 1]) anns (m, p)) i = Some tb
     \<Longrightarrow> m i = Some tb \<or> (tb \<in> set anns \<and> covers tb i)"
proof (induction anns arbitrary: m p)
  case Nil
  then show ?case by simp
next
  case (Cons a anns)
  obtain m1 p1 where s: "fold (claim_offset fn a) [tb_start a .. tb_end a - 1] (m, p) = (m1, p1)"
    by (cases "fold (claim_offset fn a) [tb_start a .. tb_end a - 1] (m, p)")
  have m1: "m1 i = (if covers a i then Some a else m i)"
    using claim_fold_map[of fn a "[tb_start a .. tb_end a - 1]" m p i] s
    by (auto simp: covers_def)
  from Cons.prems s have "fst (fold (\<lambda>tb. fold (claim_offset fn tb) [tb_start tb .. tb_end tb - 1]) anns (m1, p1)) i = Some tb"
    by simp
  from Cons.IH[OF this] m1 show ?case by (auto split: if_splits)
qed

lemma offset_label_None:
  "fst (build_offset_label fn anns) i = None \<longleftrightarrow> \<not> claimed anns i"
  unfolding build_offset_label_def by (simp add: build_fold_None)

lemma offset_label_Some:
  "fst (build_offset_label fn anns) i = Some tb \<Longrightarrow> tb \<in> set anns \<and> covers tb i"
  unfolding build_offset_label_def using build_fold_Some[of fn anns Map.empty "[]" i tb] by simp

lemma covering_span_unique:
  assumes "nonoverlapping anns" "a \<in> set anns" "b \<in> set anns" "covers a i" "covers b i"
  shows "a = b"
proof (rule ccontr)
  assume ne: "a \<noteq> b"
  from assms(2,3) obtain x y where xy: "x < length anns" "y < length anns" "anns ! x = a" "anns ! y = b"
    by (auto simp: in_set_conv_nth)
  with ne have "x \<noteq> y" by auto
  with assms(1) xy have "\<not> overlaps a b" unfolding nonoverlapping_def by blast
  with assms(4,5) show False by (auto simp: overlaps_def covers_def)
qed

lemma find_label_none:
  "\<forall>x \<in> set xs. ol x = None \<Longrightarrow> find_label ol fn s tok xs = (None, [])"
  by (induction xs) auto

lemma find_label_first:
  "\<forall>x \<in> set pre. ol x = None \<Longrightarrow> ol i = Some tb \<Longrightarrow>
   find_label ol fn s tok (pre @ i # post) =
     (Some (tb_type tb), if i \<noteq> s then [BoundaryMismatch fn tok (tb_text tb)] else [])"
  by (induction pre) auto


lemma relabel_length: "length (fst (relabel opts ls anns fn)) = length ls"
proof -
  obtain ol p0 where b: "build_offset_label fn anns = (ol, p0)"
    by (cases "build_offset_label fn anns")
  obtain d p1 where r: "relabel_loop ol fn ls None = (d, p1)"
    by (cases "relabel_loop ol fn ls None")
  from relabel_loop_length[of ol fn ls None] r have "length d = length ls" by simp
  then show ?thesis
    by (simp add: relabel_def b r split: option.splits)
qed

lemma relabel_nth:
  assumes "k < length ls"
  shows "fst (relabel opts ls anns fn) ! k =
     final_line opts
       (retag (label_before (fst (build_offset_label fn anns)) fn ls k)
          (label_of (fst (build_offset_label fn anns)) fn (ls ! k)) (ls ! k))"
proof -
  obtain ol p0 where b: "build_offset_label fn anns = (ol, p0)"
    by (cases "build_offset_label fn anns")
  obtain d p1 where r: "relabel_loop ol fn ls None = (d, p1)"
    by (cases "relabel_loop ol fn ls None")
  from relabel_loop_length[of ol fn ls None] r have len: "length d = length ls" by simp
  from relabel_loop_nth[OF assms, of ol fn None] r
  have d: "d ! k = retag (label_before ol fn ls k) (label_of ol fn (ls ! k)) (ls ! k)"
    by (simp add: label_before_def)
  from assms len d show ?thesis
    by (simp add: relabel_def b r final_line_def split: option.splits)
qed

lemma relabel_printed:
  assumes "k < length ls" "ls ! k = Some t"
  shows "set (snd (find_label (fst (build_offset_label fn anns)) fn (tl_start t) (tl_token t)
                     [tl_start t .. tl_end t - 1]))
           \<subseteq> set (snd (relabel opts ls anns fn))"
proof -
  obtain ol p0 where b: "build_offset_label fn anns = (ol, p0)"
    by (cases "build_offset_label fn anns")
  obtain d p1 where r: "relabel_loop ol fn ls None = (d, p1)"
    by (cases "relabel_loop ol fn ls None")
  from relabel_loop_printed[OF assms, of ol fn None] r b show ?thesis
    by (auto simp: relabel_def)
qed

lemma final_line_frame:
  "final_line opts None = None"
  "\<exists>tag'. final_line opts (Some (TokenLine tag s e tok)) = Some (TokenLine tag' s e tok)"
  by (auto simp: final_line_def singleclass_line_def split: option.splits)

text \<open>
  Claim C10. \<open>relabel\<close> returns as many records as it is given; at every position a
  sentence boundary stays a sentence boundary, and a token record keeps its start offset,
  its end offset and its token text: only the tag can differ. This holds for every
  configuration, with or without a single class.
\<close>

theorem relabel_changes_only_tags:
  "length (fst (relabel opts ls anns fn)) = length ls \<and>
   (\<forall>k < length ls.
      (ls ! k = None \<longrightarrow> fst (relabel opts ls anns fn) ! k = None) \<and>
      (\<forall>t. ls ! k = Some t \<longrightarrow>
         (\<exists>tag'. fst (relabel opts ls anns fn) ! k =
                   Some (TokenLine tag' (tl_start t) (tl_end t) (tl_token t)))))"
proof (intro conjI allI impI)
  show "length (fst (relabel opts ls anns fn)) = length ls" by (rule relabel_length)
next
  fix k assume "k < length ls" "ls ! k = None"
  then show "fst (relabel opts ls anns fn) ! k = None"
    by (simp add: relabel_nth retag_def final_line_frame)
next
  fix k t assume "k < length ls" "ls ! k = Some t"
  then show "\<exists>tag'. fst (relabel opts ls anns fn) ! k =
                   Some (TokenLine tag' (tl_start t) (tl_end t) (tl_token t))"
    using final_line_frame(2) by (simp add: relabel_nth retag_def)
qed

text \<open>Example 1 of the specification.\<close>

theorem relabel_changes_only_tags_witness:
  "fst (relabel no_options john_lines john_spans ''doc.txt'') =
     [Some (TokenLine ''B-PERSON'' 0 4 ''John''), Some (TokenLine ''O'' 5 8 ''ran''),
      Some (TokenLine ''O'' 8 9 ''.''), None] \<and>
   length (fst (relabel no_options john_lines john_spans ''doc.txt'')) = length john_lines \<and>
   (\<exists>tag'. fst (relabel no_options john_lines john_spans ''doc.txt'') ! 0 =
             Some (TokenLine tag' 0 4 ''John'')) \<and>
   fst (relabel no_options john_lines john_spans ''doc.txt'') ! 3 = None"
proof -
  have v: "fst (relabel no_options john_lines john_spans ''doc.txt'') =
     [Some (TokenLine ''B-PERSON'' 0 4 ''John''), Some (TokenLine ''O'' 5 8 ''ran''),
      Some (TokenLine ''O'' 8 9 ''.''), None]"
    by (simp add: relabel_def build_offset_label_def claim_offset_def no_options_def
        john_lines_def john_spans_def upto.simps)
  have h: "(0::nat) < length john_lines" "john_lines ! 0 = Some (TokenLine ''O'' 0 4 ''John'')"
    "(3::nat) < length john_lines" "john_lines ! 3 = None"
    by (simp_all add: john_lines_def)
  from relabel_changes_only_tags[of no_options john_lines john_spans "''doc.txt''"] h v
  show ?thesis by simp
qed

lemma placeholder_nth:
  "placeholder_tags ls \<Longrightarrow> k < length ls \<Longrightarrow> ls ! k = Some t \<Longrightarrow> tl_tag t = ''O''"
  unfolding placeholder_tags_def list_all_length by (auto split: option.splits)

lemma label_of_None [simp]: "label_of ol fn None = None"
  by (simp add: label_of_def)

lemma final_line_O:
  "final_line opts (Some (TokenLine ''O'' s e tok)) = Some (TokenLine ''O'' s e tok)"
  by (simp add: final_line_def singleclass_line_def split: option.splits)

lemma final_line_B:
  "final_line opts (Some (TokenLine (''B-'' @ lab) s e tok)) =
     Some (TokenLine (''B-'' @ emitted_type opts lab) s e tok)"
  by (simp add: final_line_def singleclass_line_def emitted_type_def split: option.splits)

lemma final_line_I:
  "final_line opts (Some (TokenLine (''I-'' @ lab) s e tok)) =
     Some (TokenLine (''I-'' @ emitted_type opts lab) s e tok)"
  by (simp add: final_line_def singleclass_line_def emitted_type_def split: option.splits)

text \<open>The tag of an output token, when the input carries placeholder tags.\<close>

lemma relabel_tag:
  assumes "placeholder_tags ls" "k < length ls" "fst (relabel opts ls anns fn) ! k = Some t"
  shows "tl_tag t =
     (case label_of (fst (build_offset_label fn anns)) fn (ls ! k) of
        None \<Rightarrow> ''O''
      | Some lab \<Rightarrow>
          (if label_before (fst (build_offset_label fn anns)) fn ls k = Some lab
           then ''I-'' else ''B-'') @ emitted_type opts lab)"
proof -
  let ?ol = "fst (build_offset_label fn anns)"
  from assms(2,3) obtain t0 where t0: "ls ! k = Some t0"
    by (cases "ls ! k") (simp_all add: relabel_nth retag_def final_line_frame)
  from placeholder_nth[OF assms(1,2) t0] have o: "tl_tag t0 = ''O''" .
  show ?thesis
  proof (cases "label_of ?ol fn (ls ! k)")
    case None
    with assms(2,3) t0 o have "Some t = final_line opts (Some (TokenLine ''O'' (tl_start t0) (tl_end t0) (tl_token t0)))"
      by (simp add: relabel_nth retag_def)
    with None show ?thesis by (simp add: final_line_O)
  next
    case (Some lab)
    show ?thesis
    proof (cases "label_before ?ol fn ls k = Some lab")
      case True
      with assms(2,3) t0 Some
      have "Some t = final_line opts (Some (TokenLine (''I-'' @ lab) (tl_start t0) (tl_end t0) (tl_token t0)))"
        by (simp add: relabel_nth retag_def)
      with Some True show ?thesis unfolding final_line_I by simp
    next
      case False
      then have "Some lab \<noteq> label_before ?ol fn ls k" by auto
      with assms(2,3) t0 Some
      have "Some t = final_line opts (Some (TokenLine (''B-'' @ lab) (tl_start t0) (tl_end t0) (tl_token t0)))"
        by (simp add: relabel_nth retag_def)
      with Some False show ?thesis unfolding final_line_B by simp
    qed
  qed
qed

lemma relabel_Some_iff:
  assumes "k < length ls"
  shows "fst (relabel opts ls anns fn) ! k = None \<longleftrightarrow> ls ! k = None"
proof (cases "ls ! k")
  case None
  with assms show ?thesis by (simp add: relabel_nth retag_def final_line_frame)
next
  case (Some t0)
  let ?r = "retag (label_before (fst (build_offset_label fn anns)) fn ls k)
          (label_of (fst (build_offset_label fn anns)) fn (ls ! k)) (ls ! k)"
  obtain tg where r: "?r = Some (TokenLine tg (tl_start t0) (tl_end t0) (tl_token t0))"
    unfolding Some retag_def by simp
  from final_line_frame(2)[of opts tg "tl_start t0" "tl_end t0" "tl_token t0"]
  obtain tag' where "final_line opts ?r = Some (TokenLine tag' (tl_start t0) (tl_end t0) (tl_token t0))"
    unfolding r by blast
  with assms Some show ?thesis by (simp add: relabel_nth)
qed

lemma not_O [simp]: "''I-'' @ x \<noteq> ''O''" "''B-'' @ x \<noteq> ''O''"
  by simp_all

lemma relabel_line_type:
  assumes "placeholder_tags ls" "k < length ls"
  shows "line_type (fst (relabel opts ls anns fn) ! k) =
     map_option (emitted_type opts) (label_of (fst (build_offset_label fn anns)) fn (ls ! k))"
proof (cases "fst (relabel opts ls anns fn) ! k")
  case None
  with relabel_Some_iff[OF assms(2)] have "ls ! k = None" by blast
  with None show ?thesis by (simp add: line_type_def)
next
  case (Some t)
  show ?thesis
  proof (cases "label_of (fst (build_offset_label fn anns)) fn (ls ! k)")
    case None
    with relabel_tag[OF assms Some] Some show ?thesis by (simp add: line_type_def)
  next
    case (Some lab)
    with relabel_tag[OF assms \<open>fst (relabel opts ls anns fn) ! k = Some t\<close>]
    have "tl_tag t = ''I-'' @ emitted_type opts lab \<or> tl_tag t = ''B-'' @ emitted_type opts lab"
      by (simp split: if_splits)
    then have "tl_tag t \<noteq> ''O'' \<and> drop 2 (tl_tag t) = emitted_type opts lab" by auto
    with Some \<open>fst (relabel opts ls anns fn) ! k = Some t\<close> show ?thesis
      by (simp add: line_type_def)
  qed
qed

lemma relabel_line_type_before:
  assumes "placeholder_tags ls" "k < length ls"
  shows "line_type (line_before (fst (relabel opts ls anns fn)) k) =
     map_option (emitted_type opts) (label_before (fst (build_offset_label fn anns)) fn ls k)"
proof (cases k)
  case 0
  then show ?thesis by (simp add: line_before_def label_before_def line_type_def)
next
  case (Suc j)
  with assms(2) have "j < length ls" by simp
  from relabel_line_type[OF assms(1) this] Suc show ?thesis
    by (simp add: line_before_def label_before_def)
qed

lemma tag_prefix [simp]:
  "take 2 (''I-'' @ x) = ''I-''" "take 2 (''B-'' @ x) = ''B-''"
  "drop 2 (''I-'' @ x) = x" "drop 2 (''B-'' @ x) = x"
  by simp_all

text \<open>
  Claim C2, as amended. For every sequence of token lines carrying the placeholder tag \<open>O\<close>
  (the input of the label projector) and every span list, in the output of \<open>relabel\<close> no
  token tagged \<open>I-<type>\<close> immediately follows an \<open>O\<close> token, a sentence boundary or a
  token of another type, and the first token of every maximal same-type run is tagged
  \<open>B-<type>\<close>; when no single class is configured, every other token of the run is tagged
  \<open>I-<type>\<close>, so the run holds exactly one \<open>B-<type>\<close>.
\<close>

theorem relabel_bio_consistent:
  assumes "placeholder_tags ls"
  shows "inside_follows_same_type (fst (relabel opts ls anns fn)) \<and>
         runs_begin_with_B (fst (relabel opts ls anns fn)) \<and>
         (\<not> singleclass_set opts \<longrightarrow> one_B_per_run (fst (relabel opts ls anns fn)))"
proof -
  let ?out = "fst (relabel opts ls anns fn)"
  let ?ol = "fst (build_offset_label fn anns)"
  have len: "length ?out = length ls" by (rule relabel_length)
  have a: "inside_follows_same_type ?out"
    unfolding inside_follows_same_type_def
  proof (intro allI impI)
    fix k t assume k: "k < length ?out" and t: "?out ! k = Some t \<and> take 2 (tl_tag t) = ''I-''"
    from k len have k': "k < length ls" by simp
    from t have tk: "?out ! k = Some t" and ti: "take 2 (tl_tag t) = ''I-''" by simp_all
    note tag = relabel_tag[OF assms k' tk]
    from tag ti obtain lab where lab: "label_of ?ol fn (ls ! k) = Some lab"
      by (cases "label_of ?ol fn (ls ! k)") simp_all
    from tag ti lab have prev: "label_before ?ol fn ls k = Some lab"
      by (simp split: if_splits)
    from tag lab prev have "drop 2 (tl_tag t) = emitted_type opts lab" by simp
    with relabel_line_type_before[OF assms k', of opts anns fn] prev
    show "line_type (line_before ?out k) = Some (drop 2 (tl_tag t))" by simp
  qed
  have b: "runs_begin_with_B ?out"
    unfolding runs_begin_with_B_def
  proof (intro allI impI)
    fix k t assume k: "k < length ?out"
      and t: "?out ! k = Some t \<and> tl_tag t \<noteq> ''O'' \<and> line_type (line_before ?out k) \<noteq> line_type (Some t)"
    from k len have k': "k < length ls" by simp
    from t have tk: "?out ! k = Some t" and tn: "tl_tag t \<noteq> ''O''"
      and d: "line_type (line_before ?out k) \<noteq> line_type (?out ! k)" by simp_all
    note tag = relabel_tag[OF assms k' tk]
    from tag tn obtain lab where lab: "label_of ?ol fn (ls ! k) = Some lab"
      by (cases "label_of ?ol fn (ls ! k)") simp_all
    from d have "label_before ?ol fn ls k \<noteq> Some lab"
      unfolding relabel_line_type_before[OF assms k'] relabel_line_type[OF assms k'] lab by auto
    with tag lab show "take 2 (tl_tag t) = ''B-''" by simp
  qed
  have c: "one_B_per_run ?out" if ns: "\<not> singleclass_set opts"
    unfolding one_B_per_run_def
  proof (intro allI impI)
    fix k t assume k: "k < length ?out"
      and t: "?out ! k = Some t \<and> tl_tag t \<noteq> ''O'' \<and> line_type (line_before ?out k) = line_type (Some t)"
    from k len have k': "k < length ls" by simp
    from ns have e: "emitted_type opts x = x" for x
      by (auto simp: emitted_type_def singleclass_set_def split: option.splits)
    from t have tk: "?out ! k = Some t" and tn: "tl_tag t \<noteq> ''O''"
      and d: "line_type (line_before ?out k) = line_type (?out ! k)" by simp_all
    note tag = relabel_tag[OF assms k' tk]
    from tag tn obtain lab where lab: "label_of ?ol fn (ls ! k) = Some lab"
      by (cases "label_of ?ol fn (ls ! k)") simp_all
    from d have "label_before ?ol fn ls k = Some lab"
      unfolding relabel_line_type_before[OF assms k'] relabel_line_type[OF assms k'] lab
      by (cases "label_before ?ol fn ls k") (simp_all add: e)
    with tag lab show "take 2 (tl_tag t) = ''I-''" by simp
  qed
  from a b c show ?thesis by blast
qed


lemma john_placeholder: "placeholder_tags john_lines"
  by (simp add: placeholder_tags_def john_lines_def)

theorem relabel_bio_consistent_witness:
  "placeholder_tags john_lines \<and> \<not> singleclass_set no_options \<and>
   inside_follows_same_type (fst (relabel no_options john_lines john_spans ''doc.txt'')) \<and>
   runs_begin_with_B (fst (relabel no_options john_lines john_spans ''doc.txt'')) \<and>
   one_B_per_run (fst (relabel no_options john_lines john_spans ''doc.txt''))"
proof -
  have n: "\<not> singleclass_set no_options"
    by (simp add: singleclass_set_def no_options_def)
  from relabel_bio_consistent[OF john_placeholder, of no_options john_spans "''doc.txt''"] n
    john_placeholder
  show ?thesis by blast
qed

lemma two_type_output:
  "fst (relabel single_class_options two_type_lines two_type_spans ''doc.txt'') =
     [Some (TokenLine ''B-C'' 0 1 ''a''), Some (TokenLine ''B-C'' 1 2 ''b'')]"
  by (simp add: relabel_def build_offset_label_def claim_offset_def single_class_options_def
      two_type_lines_def two_type_spans_def singleclass_line_def upto.simps)

lemma two_type_nonoverlapping: "nonoverlapping two_type_spans"
  by (auto simp: nonoverlapping_def two_type_spans_def overlaps_def less_Suc_eq)

text \<open>
  With \<open>--singleclass C\<close>, two adjacent tokens under spans of the types \<open>X\<close> and \<open>Y\<close> are
  both tagged \<open>B-C\<close>: one maximal run of the type \<open>C\<close> with two \<open>B-C\<close> tags.
\<close>

theorem single_class_breaks_one_B_per_run:
  "placeholder_tags two_type_lines \<and> nonoverlapping two_type_spans \<and>
   fst (relabel single_class_options two_type_lines two_type_spans ''doc.txt'') =
     [Some (TokenLine ''B-C'' 0 1 ''a''), Some (TokenLine ''B-C'' 1 2 ''b'')] \<and>
   \<not> one_B_per_run (fst (relabel single_class_options two_type_lines two_type_spans ''doc.txt''))"
proof -
  have p: "placeholder_tags two_type_lines"
    by (simp add: placeholder_tags_def two_type_lines_def)
  have "\<not> one_B_per_run [Some (TokenLine ''B-C'' 0 1 ''a''), Some (TokenLine ''B-C'' 1 2 ''b'')]"
  proof
    assume a: "one_B_per_run [Some (TokenLine ''B-C'' 0 1 ''a''), Some (TokenLine ''B-C'' 1 2 ''b'')]"
    have "take 2 (tl_tag (TokenLine ''B-C'' 1 2 ''b'')) = ''I-''"
      using a[unfolded one_B_per_run_def, rule_format, of 1 "TokenLine ''B-C'' 1 2 ''b''"]
      by (simp add: line_before_def line_type_def)
    then show False by simp
  qed
  with p two_type_nonoverlapping two_type_output show ?thesis by simp
qed

lemma relabel_token_frame:
  assumes "k < length ls" "ls ! k = Some (TokenLine tag s e tok)"
  shows "\<exists>tag'. fst (relabel opts ls anns fn) ! k = Some (TokenLine tag' s e tok)"
  using assms final_line_frame(2) by (simp add: relabel_nth retag_def)

text \<open>
  Claim C8. For every token of the input (carrying the placeholder tag, with spans that do
  not overlap): if no offset of \<open>[start, end)\<close> is claimed, the search finds no label,
  prints nothing, and the token is tagged \<open>O\<close>; if \<open>i\<close> is the first claimed offset and
  \<open>tb\<close> the span that claims it, the label assigned is the type of \<open>tb\<close>, a
  boundary-mismatch warning is printed exactly when \<open>i\<close> is greater than the token's start,
  and with or without the warning the token is tagged \<open>B-\<close> or \<open>I-\<close> with that type (with
  the single class in its place when one is configured). \<open>relabel\<close> is a total function:
  a warning is a value in the list it returns beside the lines.
\<close>

theorem relabel_assigns_first_claimed:
  assumes "placeholder_tags ls" "nonoverlapping anns" "k < length ls"
    and "ls ! k = Some (TokenLine tag s e tok)"
  shows
   "(list_all (\<lambda>i. \<not> claimed anns i) [s .. e - 1] \<longrightarrow>
        find_label (fst (build_offset_label fn anns)) fn s tok [s .. e - 1] = (None, []) \<and>
        fst (relabel opts ls anns fn) ! k = Some (TokenLine ''O'' s e tok)) \<and>
    (\<forall>i tb. first_claimed anns s e i \<and> tb \<in> set anns \<and> covers tb i \<longrightarrow>
        find_label (fst (build_offset_label fn anns)) fn s tok [s .. e - 1] =
          (Some (tb_type tb), if s < i then [BoundaryMismatch fn tok (tb_text tb)] else []) \<and>
        (s < i \<longrightarrow> BoundaryMismatch fn tok (tb_text tb) \<in> set (snd (relabel opts ls anns fn))) \<and>
        (\<exists>p \<in> {''B-'', ''I-''}. fst (relabel opts ls anns fn) ! k =
            Some (TokenLine (p @ emitted_type opts (tb_type tb)) s e tok)))"
proof (intro conjI allI impI)
  let ?ol = "fst (build_offset_label fn anns)"
  from relabel_token_frame[OF assms(3,4)] obtain tag' where
    out: "fst (relabel opts ls anns fn) ! k = Some (TokenLine tag' s e tok)" by blast
  note tg = relabel_tag[OF assms(1,3) out]
  have lab: "label_of ?ol fn (ls ! k) = fst (find_label ?ol fn s tok [s .. e - 1])"
    by (simp add: label_of_def assms(4))
  {
    assume none: "list_all (\<lambda>i. \<not> claimed anns i) [s .. e - 1]"
    then have "\<forall>x \<in> set [s .. e - 1]. ?ol x = None"
      by (simp add: list_all_iff offset_label_None)
    from find_label_none[OF this]
    show f: "find_label ?ol fn s tok [s .. e - 1] = (None, [])" .
    with tg lab out show "fst (relabel opts ls anns fn) ! k = Some (TokenLine ''O'' s e tok)"
      by simp
  }
  fix i tb
  assume h: "first_claimed anns s e i \<and> tb \<in> set anns \<and> covers tb i"
  then have r: "s \<le> i" "i < e" "claimed anns i" and pre: "\<forall>x \<in> set [s .. i - 1]. \<not> claimed anns x"
    and tb: "tb \<in> set anns" "covers tb i"
    by (simp_all add: first_claimed_def list_all_iff)
  from r(3) obtain tb' where tb': "?ol i = Some tb'"
    using offset_label_None[of fn anns i] by (cases "?ol i") auto
  from offset_label_Some[OF tb'] tb covering_span_unique[OF assms(2)] have "tb' = tb" by blast
  with tb' have oi: "?ol i = Some tb" by simp
  from pre have pre': "\<forall>x \<in> set [s .. i - 1]. ?ol x = None"
    by (simp add: offset_label_None)
  from r have split: "[s .. e - 1] = [s .. i - 1] @ i # [i + 1 .. e - 1]"
    by (intro upto_split3) simp_all
  from find_label_first[OF pre' oi, of fn s tok "[i + 1 .. e - 1]"] r(1)
  show f: "find_label ?ol fn s tok [s .. e - 1] =
          (Some (tb_type tb), if s < i then [BoundaryMismatch fn tok (tb_text tb)] else [])"
    unfolding split by auto
  {
    assume "s < i"
    with f have "BoundaryMismatch fn tok (tb_text tb) \<in>
        set (snd (find_label ?ol fn s tok [s .. e - 1]))" by simp
    with relabel_printed[OF assms(3,4), of fn anns opts]
    show "BoundaryMismatch fn tok (tb_text tb) \<in> set (snd (relabel opts ls anns fn))"
      by auto
  }
  from tg lab f have "tag' = ''B-'' @ emitted_type opts (tb_type tb) \<or>
      tag' = ''I-'' @ emitted_type opts (tb_type tb)"
    by (simp split: if_splits)
  with out show "\<exists>p \<in> {''B-'', ''I-''}. fst (relabel opts ls anns fn) ! k =
            Some (TokenLine (p @ emitted_type opts (tb_type tb)) s e tok)"
    by auto
qed


theorem relabel_assigns_first_claimed_witness:
  "placeholder_tags mismatch_lines \<and> nonoverlapping mismatch_spans \<and>
   first_claimed mismatch_spans 0 4 2 \<and> covers (Textbound 2 6 ''X'' ''hn r'') 2 \<and>
   find_label (fst (build_offset_label ''doc.txt'' mismatch_spans)) ''doc.txt'' 0 ''John'' [0 .. 4 - 1] =
     (Some ''X'', [BoundaryMismatch ''doc.txt'' ''John'' ''hn r'']) \<and>
   BoundaryMismatch ''doc.txt'' ''John'' ''hn r''
     \<in> set (snd (relabel no_options mismatch_lines mismatch_spans ''doc.txt'')) \<and>
   fst (relabel no_options mismatch_lines mismatch_spans ''doc.txt'') ! 0 =
     Some (TokenLine ''B-X'' 0 4 ''John'')"
proof -
  have p: "placeholder_tags mismatch_lines"
    by (simp add: placeholder_tags_def mismatch_lines_def)
  have n: "nonoverlapping mismatch_spans"
    by (simp add: nonoverlapping_def mismatch_spans_def)
  have k: "0 < length mismatch_lines" "mismatch_lines ! 0 = Some (TokenLine ''O'' 0 4 ''John'')"
    by (simp_all add: mismatch_lines_def)
  have f: "first_claimed mismatch_spans 0 4 2 \<and> Textbound 2 6 ''X'' ''hn r'' \<in> set mismatch_spans \<and>
      covers (Textbound 2 6 ''X'' ''hn r'') 2"
    by (simp add: first_claimed_def claimed_def covers_def mismatch_spans_def upto.simps)
  have v: "fst (relabel no_options mismatch_lines mismatch_spans ''doc.txt'') ! 0 =
     Some (TokenLine ''B-X'' 0 4 ''John'')"
    by (simp add: relabel_def build_offset_label_def claim_offset_def no_options_def
        mismatch_lines_def mismatch_spans_def upto.simps)
  from relabel_assigns_first_claimed[OF p n k, of "''doc.txt''" no_options,
      THEN conjunct2, rule_format, OF f] p n f v
  show ?thesis by simp
qed

section \<open>Tokenization: proofs\<close>

lemma matches_concat: "concat (TOKENIZATION_REGEX_matches s) = s"
  by (induction s rule: TOKENIZATION_REGEX_matches.induct) simp_all

lemma matches_nonempty: "m \<in> set (TOKENIZATION_REGEX_matches s) \<Longrightarrow> m \<noteq> []"
  by (induction s rule: TOKENIZATION_REGEX_matches.induct) (auto split: if_splits)

lemma filter_interleave:
  "\<forall>m \<in> set ms. m \<noteq> [] \<Longrightarrow> filter nonempty (concat (map (\<lambda>m. [m, []]) ms)) = ms"
  by (induction ms) (simp_all add: nonempty_def)

lemma tokenization_split_tokens:
  "filter nonempty (TOKENIZATION_REGEX_split s) = TOKENIZATION_REGEX_matches s"
  unfolding TOKENIZATION_REGEX_split_def
  using filter_interleave[of "TOKENIZATION_REGEX_matches s"] matches_nonempty[of _ s]
  by (simp add: nonempty_def)

lemma concat_filter_nonempty: "concat (filter nonempty xs) = concat xs"
  by (induction xs) (simp_all add: nonempty_def)

lemma tokenization_regex_concat:
  "concat (filter nonempty (TOKENIZATION_REGEX_split s)) = s"
  by (simp add: tokenization_split_tokens matches_concat)

lemma pretokenized_concat: "concat (PRETOKENIZED_REGEX_findall s) = s"
  by (induction s rule: PRETOKENIZED_REGEX_findall.induct) simp_all

lemma newline_split_from_concat: "concat (NEWLINE_TERM_REGEX_split_from cur s) = cur @ s"
  by (induction s arbitrary: cur) simp_all

lemma newline_split_concat: "concat (NEWLINE_TERM_REGEX_split s) = s"
  by (simp add: NEWLINE_TERM_REGEX_split_def newline_split_from_concat)

lemma sentences_none_concat: "concat (concat (sentences_none f)) = concat f"
  unfolding sentences_none_def concat_filter_nonempty
  by (induction f) (simp_all add: concat_filter_nonempty pretokenized_concat)

lemma concat_map_tokenize:
  "concat (concat (map (\<lambda>s. filter nonempty (TOKENIZATION_REGEX_split s)) ss)) = concat ss"
  by (induction ss) (simp_all add: tokenization_regex_concat)

lemma sentences_regex_concat:
  "concat (concat (sentences_regex sbn f)) = concat (map sbn f)"
  unfolding sentences_regex_def
  by (induction f) (simp_all add: concat_filter_nonempty concat_map_tokenize newline_split_concat)

lemma strategies_none_regex_preserve_text:
  "preprocess opts = PreNone \<Longrightarrow>
     concat (concat (text_to_conll_sentences opts sbn analyze f)) = concat f"
  "preprocess opts = PreRegex \<Longrightarrow>
     concat (concat (text_to_conll_sentences opts sbn analyze f)) = concat (map sbn f)"
  by (simp_all add: text_to_conll_sentences_def sentences_none_concat sentences_regex_concat)

lemma paragraphs_shape:
  "concat (map (\<lambda>paragraph. filter nonempty (map syntok_tokenized paragraph) @ [[[NEWLINE]]]) ps) = [] \<or>
   last (concat (map (\<lambda>paragraph. filter nonempty (map syntok_tokenized paragraph) @ [[[NEWLINE]]]) ps))
     = [[NEWLINE]]"
  by (induction ps rule: rev_induct) simp_all

lemma sentences_syntok_shape:
  "sentences_syntok analyze f = [] \<or> last (sentences_syntok analyze f) = [[NEWLINE]]"
  unfolding sentences_syntok_def by (rule paragraphs_shape)

lemma syntok_text_shape:
  "concat (concat (sentences_syntok analyze f)) = [] \<or>
   last (concat (concat (sentences_syntok analyze f))) = NEWLINE"
proof (cases "sentences_syntok analyze f = []")
  case True
  then show ?thesis by simp
next
  case False
  with sentences_syntok_shape[of analyze f]
  have "sentences_syntok analyze f = butlast (sentences_syntok analyze f) @ [[[NEWLINE]]]"
    by (metis append_butlast_last_id)
  then have "concat (concat (sentences_syntok analyze f)) =
      concat (concat (butlast (sentences_syntok analyze f))) @ [NEWLINE]"
    by (metis (no_types, lifting) append_Nil2 concat.simps concat_append)
  then show ?thesis by simp
qed

text \<open>
  Claim C3. The concatenation of the tokens reproduces the text exactly. The tokenizers of
  the strategies \<open>regex\<close> and \<open>none\<close> satisfy this (\<open>tokenization_regex_concat\<close>,
  \<open>pretokenized_concat\<close>), and so do their sentence lists
  (\<open>strategies_none_regex_preserve_text\<close>; for \<open>regex\<close> the text is the one returned by
  \<open>sentencebreaks_to_newlines\<close>). The strategy \<open>syntok\<close> does not: after every paragraph it
  appends the sentence \<open>['\n']\<close>, so whatever the segmenter returns, the tokens of the
  document \<open>a\<close> do not concatenate to \<open>a\<close>.
\<close>

theorem syntok_appends_newline:
  "concat (concat (text_to_conll_sentences syntok_options sentencebreaks_to_newlines analyze [''a''])) \<noteq> ''a''"
proof -
  have s: "text_to_conll_sentences syntok_options sentencebreaks_to_newlines analyze [''a'']
      = sentences_syntok analyze [''a'']"
    by (simp add: text_to_conll_sentences_def syntok_options_def)
  show ?thesis unfolding s
  proof
    assume a: "concat (concat (sentences_syntok analyze [''a''])) = ''a''"
    from syntok_text_shape[of analyze "[''a'']"] show False
      unfolding a by (simp add: NEWLINE_def)
  qed
qed

text \<open>Every token line built by \<open>text_to_conll\<close> carries the placeholder tag \<open>O\<close>.\<close>

lemma sentence_lines_placeholder:
  "sentence_lines ts offset seen = (ls, offset', seen') \<Longrightarrow> placeholder_tags ls"
proof (induction ts arbitrary: offset seen ls offset' seen')
  case Nil
  then show ?case by (simp add: placeholder_tags_def)
next
  case (Cons t ts)
  show ?case
  proof (cases "str_isspace t")
    case True
    with Cons show ?thesis by simp
  next
    case False
    obtain l1 o1 s1 where r: "sentence_lines ts (offset + int (length t)) True = (l1, o1, s1)"
      by (cases "sentence_lines ts (offset + int (length t)) True")
    from Cons.IH[OF r] Cons.prems False r show ?thesis
      by (auto simp: placeholder_tags_def)
  qed
qed

lemma token_lines_placeholder: "placeholder_tags (token_lines sentences offset)"
proof (induction sentences arbitrary: offset)
  case Nil
  then show ?case by (simp add: placeholder_tags_def)
next
  case (Cons s rest)
  obtain ls o1 seen where r: "sentence_lines s offset False = (ls, o1, seen)"
    by (cases "sentence_lines s offset False")
  from sentence_lines_placeholder[OF r] Cons.IH[of o1] r show ?case
    by (simp add: placeholder_tags_def)
qed

section \<open>Parsing standoff annotations: proofs\<close>

lemma parse_attribute_error: "parse_attribute l = Inl err \<Longrightarrow> err = ValueError"
  by (auto simp: parse_attribute_def split: list.splits)

lemma parse_textbound_error: "parse_textbound l = Inl err \<Longrightarrow> err = ValueError"
  by (auto simp: parse_textbound_def split: list.splits option.splits)

lemma parse_textbound_malformed: "malformed_textbound l \<Longrightarrow> parse_textbound l = Inl ValueError"
  by (auto simp: parse_textbound_def malformed_textbound_def split: list.splits option.splits)

lemma parse_line_error: "parse_line raw st = Inl err \<Longrightarrow> err = ValueError"
  by (cases st)
    (auto simp: parse_line_def Let_def split: if_splits sum.splits
      dest: parse_attribute_error parse_textbound_error)

lemma parse_line_malformed:
  "TEXTBOUND_LINE_RE_search (rstrip_newline raw) \<Longrightarrow> malformed_textbound (rstrip_newline raw)
     \<Longrightarrow> parse_line raw st = Inl ValueError"
  by (cases st) (simp add: parse_line_def Let_def parse_textbound_malformed)

lemma parse_lines_error: "parse_lines f st = Inl err \<Longrightarrow> err = ValueError"
  by (induction f arbitrary: st) (auto split: sum.splits dest: parse_line_error)

lemma parse_lines_malformed:
  assumes "raw \<in> set f" "TEXTBOUND_LINE_RE_search (rstrip_newline raw)"
    "malformed_textbound (rstrip_newline raw)"
  shows "parse_lines f st = Inl ValueError"
  using assms(1)
proof (induction f arbitrary: st)
  case Nil
  then show ?case by simp
next
  case (Cons x f)
  show ?case
  proof (cases "parse_line x st")
    case (Inl err)
    with parse_line_error[OF Inl] show ?thesis by simp
  next
    case (Inr st')
    with parse_line_malformed[OF assms(2,3), of st] have "x \<noteq> raw" by auto
    with Cons.prems have "raw \<in> set f" by simp
    from Cons.IH[OF this] Inr show ?thesis by simp
  qed
qed

text \<open>
  Claim C4, as amended. If the input holds a textbound line (one matching
  \<open>TEXTBOUND_LINE_RE\<close>) that does not split into exactly three TAB-separated fields, or
  whose middle field is not a type and two offsets, or whose offsets are not integer
  literals, then \<open>parse_textbounds\<close> fails, and the exception is \<open>ValueError\<close>: the
  unpackings and \<open>int\<close> raise it, and nothing in the function raises \<open>FormatError\<close>.
\<close>

theorem malformed_textbound_raises_ValueError:
  assumes "raw \<in> set f" "TEXTBOUND_LINE_RE_search (rstrip_newline raw)"
    "malformed_textbound (rstrip_newline raw)"
  shows "parse_textbounds opts f = Inl ValueError"
  using parse_lines_malformed[OF assms] by (simp add: parse_textbounds_def)

lemma bad_offset_line_facts:
  "TEXTBOUND_LINE_RE_search (rstrip_newline bad_offset_line)"
  "split_on TAB (rstrip_newline bad_offset_line) = [''T1'', ''PER 0 x'', ''John'']"
  "split_ws ''PER 0 x'' = [''PER'', ''0'', ''x'']"
  "py_int ''x'' = None"
  by (simp_all add: bad_offset_line_def rstrip_newline_def TEXTBOUND_LINE_RE_search_def
      id_line_re_def isdigit_def TAB_def NEWLINE_def split_ws_def isspace_def py_int_def strip_def)

theorem malformed_textbound_raises_ValueError_witness:
  "bad_offset_line \<in> set [good_textbound_line, bad_offset_line] \<and>
   TEXTBOUND_LINE_RE_search (rstrip_newline bad_offset_line) \<and>
   malformed_textbound (rstrip_newline bad_offset_line) \<and>
   parse_textbounds no_options [good_textbound_line, bad_offset_line] = Inl ValueError"
proof -
  have m: "malformed_textbound (rstrip_newline bad_offset_line)"
    by (simp add: malformed_textbound_def bad_offset_line_facts)
  have i: "bad_offset_line \<in> set [good_textbound_line, bad_offset_line]" by simp
  from malformed_textbound_raises_ValueError[OF i bad_offset_line_facts(1) m, of no_options]
    i bad_offset_line_facts(1) m
  show ?thesis by simp
qed

text \<open>A textbound line whose end offset is \<open>x\<close>: the exception is not \<open>FormatError\<close>.\<close>

theorem malformed_textbound_is_not_FormatError:
  "TEXTBOUND_LINE_RE_search (rstrip_newline bad_offset_line) \<and>
   split_on TAB (rstrip_newline bad_offset_line) = [''T1'', ''PER 0 x'', ''John''] \<and>
   py_int ''x'' = None \<and>
   parse_textbounds no_options [bad_offset_line] = Inl ValueError \<and>
   parse_textbounds no_options [bad_offset_line] \<noteq> Inl FormatError"
proof -
  have "parse_textbound (rstrip_newline bad_offset_line) = Inl ValueError"
    by (simp add: parse_textbound_def bad_offset_line_facts split: option.splits)
  then have "parse_textbounds no_options [bad_offset_line] = Inl ValueError"
    by (simp add: parse_textbounds_def parse_line_def bad_offset_line_facts(1))
  with bad_offset_line_facts show ?thesis by simp
qed


lemma append_attributes_KeyError:
  "(tid, att) \<in> set xs \<Longrightarrow> tid \<notin> fst ` set m \<Longrightarrow> append_attributes xs m = Inl KeyError"
proof (induction xs arbitrary: m)
  case Nil
  then show ?case by simp
next
  case (Cons x xs)
  obtain t0 a0 where x: "x = (t0, a0)" by (cases x)
  show ?case
  proof (cases "map_of m t0")
    case None
    with x show ?thesis by simp
  next
    case (Some ent)
    obtain s e types tx where ent: "ent = (s, e, types, tx)" by (cases ent) auto
    from map_of_SomeD[OF Some] have k: "t0 \<in> fst ` set m" by force
    with Cons.prems x have in_rest: "(tid, att) \<in> set xs" by auto
    from k Cons.prems(2) have "tid \<notin> fst ` set (AList.update t0 (s, e, types @ [a0], tx) m)"
      by (auto simp: dom_update)
    from Cons.IH[OF in_rest this] Some ent x show ?thesis by simp
  qed
qed

lemma parse_line_record:
  assumes "attribute_record raw = Some x"
  shows "parse_line raw (m, a) = Inr (m, a @ [x])"
  using assms
  by (auto simp: attribute_record_def parse_line_def Let_def split: if_splits sum.splits)

lemma parse_line_atts_grow:
  "parse_line raw (m, a) = Inr (m', a') \<Longrightarrow> set a \<subseteq> set a'"
  by (auto simp: parse_line_def Let_def split: if_splits sum.splits)

lemma parse_lines_atts_grow:
  "parse_lines f (m, a) = Inr (m', a') \<Longrightarrow> set a \<subseteq> set a'"
proof (induction f arbitrary: m a)
  case Nil
  then show ?case by simp
next
  case (Cons raw f)
  from Cons.prems obtain m1 a1 where s: "parse_line raw (m, a) = Inr (m1, a1)"
    and r: "parse_lines f (m1, a1) = Inr (m', a')"
    by (auto split: sum.splits)
  from parse_line_atts_grow[OF s] Cons.IH[OF r] show ?case by blast
qed

lemma parse_lines_collects:
  assumes "raw \<in> set f" "attribute_record raw = Some x"
  shows "parse_lines f (m, a) = Inr (m', a') \<Longrightarrow> x \<in> set a'"
  using assms(1)
proof (induction f arbitrary: m a)
  case Nil
  then show ?case by simp
next
  case (Cons y f)
  from Cons.prems(1) obtain m1 a1 where s: "parse_line y (m, a) = Inr (m1, a1)"
    and r: "parse_lines f (m1, a1) = Inr (m', a')"
    by (auto split: sum.splits)
  show ?case
  proof (cases "y = raw")
    case True
    with s parse_line_record[OF assms(2), of m a] have "x \<in> set a1" by auto
    with parse_lines_atts_grow[OF r] show ?thesis by blast
  next
    case False
    with Cons.prems(2) have "raw \<in> set f" by simp
    from Cons.IH[OF r this] show ?thesis .
  qed
qed

lemma parse_line_mapping:
  "map_sum id fst (parse_line raw (m, a)) = map_sum id fst (parse_line raw (m, b))"
  by (auto simp: parse_line_def Let_def split: if_splits sum.splits)

lemma parse_lines_mapping:
  "map_sum id fst (parse_lines f (m, a)) = map_sum id fst (parse_lines f (m, b))"
proof (induction f arbitrary: m a b)
  case Nil
  then show ?case by simp
next
  case (Cons raw f)
  show ?case
  proof (cases "parse_line raw (m, a)")
    case (Inl err)
    with parse_line_mapping[of raw m a b] have "parse_line raw (m, b) = Inl err"
      by (cases "parse_line raw (m, b)") auto
    with Inl show ?thesis by simp
  next
    case (Inr st1)
    obtain m1 a1 where st1: "st1 = (m1, a1)" by (cases st1)
    with Inr parse_line_mapping[of raw m a b] obtain b1 where "parse_line raw (m, b) = Inr (m1, b1)"
      by (cases "parse_line raw (m, b)") auto
    with Inr st1 Cons.IH[of m1 a1 b1] show ?thesis by simp
  qed
qed

lemma parse_lines_append:
  "parse_lines (xs @ ys) st =
     (case parse_lines xs st of Inl err \<Rightarrow> Inl err | Inr st' \<Rightarrow> parse_lines ys st')"
  by (induction xs arbitrary: st) (auto split: sum.splits)

lemma parse_textbounds_without_attributes:
  "\<not> attributes opts \<Longrightarrow>
   parse_textbounds opts f = map_sum id (map make_textbound) (map_sum id fst (parse_lines f ([], [])))"
  by (auto simp: parse_textbounds_def split: sum.splits)

lemma parse_lines_skip_record:
  assumes "attribute_record raw = Some x"
  shows "map_sum id fst (parse_lines (pre @ raw # post) st) = map_sum id fst (parse_lines (pre @ post) st)"
proof (cases "parse_lines pre st")
  case (Inl err)
  then show ?thesis by (simp add: parse_lines_append)
next
  case (Inr st1)
  obtain m a where st1: "st1 = (m, a)" by (cases st1)
  from Inr st1 parse_line_record[OF assms, of m a]
    parse_lines_mapping[of post m "a @ [x]" a]
  show ?thesis by (simp add: parse_lines_append)
qed

text \<open>
  Claim C5, as amended. With attribute-appending enabled, an attribute record whose entity
  id is not a key of the textbound mapping is not dropped: once every line has been read
  without error, \<open>mapping[tid]\<close> raises \<open>KeyError\<close>. With attribute-appending disabled the
  attribute records are collected and never used: \<open>parse_textbounds\<close> gives the same
  result, spans or error, as without the record.
\<close>

theorem orphan_attribute_raises_KeyError:
  "(attributes opts \<and> raw \<in> set f \<and> attribute_record raw = Some (tid, att) \<and>
      parse_lines f ([], []) = Inr (mapping, atts) \<and> tid \<notin> fst ` set mapping
      \<longrightarrow> parse_textbounds opts f = Inl KeyError) \<and>
   (\<not> attributes opts \<and> attribute_record raw = Some (tid, att)
      \<longrightarrow> parse_textbounds opts (pre @ raw # post) = parse_textbounds opts (pre @ post))"
proof (intro conjI impI)
  assume h: "attributes opts \<and> raw \<in> set f \<and> attribute_record raw = Some (tid, att) \<and>
      parse_lines f ([], []) = Inr (mapping, atts) \<and> tid \<notin> fst ` set mapping"
  then have "(tid, att) \<in> set atts"
    using parse_lines_collects[of raw f "(tid, att)" "[]" "[]" mapping atts] by blast
  then have "(tid, att) \<in> set (sort atts)" by simp
  from append_attributes_KeyError[OF this, of mapping] h
  show "parse_textbounds opts f = Inl KeyError"
    by (simp add: parse_textbounds_def)
next
  assume h: "\<not> attributes opts \<and> attribute_record raw = Some (tid, att)"
  then have r: "attribute_record raw = Some (tid, att)" and n: "\<not> attributes opts" by simp_all
  show "parse_textbounds opts (pre @ raw # post) = parse_textbounds opts (pre @ post)"
    unfolding parse_textbounds_without_attributes[OF n] parse_lines_skip_record[OF r] ..
qed

lemma good_textbound_line_facts:
  "TEXTBOUND_LINE_RE_search (rstrip_newline good_textbound_line)"
  "parse_textbound (rstrip_newline good_textbound_line) = Inr (''T1'', (0, 4, [''PER''], ''John''))"
  by (simp_all add: good_textbound_line_def rstrip_newline_def TEXTBOUND_LINE_RE_search_def
      id_line_re_def isdigit_def TAB_def NEWLINE_def split_ws_def isspace_def py_int_def strip_def
      parse_textbound_def digits_value_def)

lemma orphan_attribute_line_facts:
  "attribute_record orphan_attribute_line = Some (''T2'', ''Negated'')"
  by (simp add: orphan_attribute_line_def attribute_record_def rstrip_newline_def
      TEXTBOUND_LINE_RE_search_def ATTRIBUTE_LINE_RE_match_def parse_attribute_def
      id_line_re_def isdigit_def TAB_def NEWLINE_def)

lemma orphan_parse_lines:
  "parse_lines [good_textbound_line, orphan_attribute_line] ([], []) =
     Inr ([(''T1'', (0, 4, [''PER''], ''John''))], [(''T2'', ''Negated'')])"
proof -
  have "parse_line good_textbound_line ([], []) = Inr ([(''T1'', (0, 4, [''PER''], ''John''))], [])"
    by (simp add: parse_line_def Let_def good_textbound_line_facts)
  with parse_line_record[OF orphan_attribute_line_facts] show ?thesis by simp
qed

text \<open>
  A textbound \<open>T1\<close> and an attribute of \<open>T2\<close>, with \<open>--attributes\<close>: without the attribute
  line one span is returned, with it \<open>KeyError\<close>.
\<close>

theorem orphan_attribute_is_not_dropped:
  "attributes attribute_options \<and>
   attribute_record orphan_attribute_line = Some (''T2'', ''Negated'') \<and>
   parse_textbounds attribute_options [good_textbound_line] = Inr [Textbound 0 4 ''PER'' ''John''] \<and>
   parse_textbounds attribute_options [good_textbound_line, orphan_attribute_line] = Inl KeyError"
proof -
  have a: "attributes attribute_options" by (simp add: attribute_options_def)
  have 1: "parse_textbounds attribute_options [good_textbound_line] = Inr [Textbound 0 4 ''PER'' ''John'']"
    by (simp add: parse_textbounds_def parse_line_def Let_def good_textbound_line_facts make_textbound_def a)
  have 2: "parse_textbounds attribute_options [good_textbound_line, orphan_attribute_line] = Inl KeyError"
    unfolding parse_textbounds_def orphan_parse_lines by (simp add: a)
  from a orphan_attribute_line_facts 1 2 show ?thesis by simp
qed

theorem orphan_attribute_raises_KeyError_witness:
  "attributes attribute_options \<and> \<not> attributes no_options \<and>
   attribute_record orphan_attribute_line = Some (''T2'', ''Negated'') \<and>
   parse_lines [good_textbound_line, orphan_attribute_line] ([], []) =
     Inr ([(''T1'', (0, 4, [''PER''], ''John''))], [(''T2'', ''Negated'')]) \<and>
   parse_textbounds attribute_options [good_textbound_line, orphan_attribute_line] = Inl KeyError \<and>
   parse_textbounds no_options ([good_textbound_line] @ orphan_attribute_line # []) =
     parse_textbounds no_options ([good_textbound_line] @ [])"
proof -
  have a: "attributes attribute_options" "\<not> attributes no_options"
    by (simp_all add: attribute_options_def no_options_def)
  have i: "orphan_attribute_line \<in> set [good_textbound_line, orphan_attribute_line]" by simp
  have k: "''T2'' \<notin> fst ` set [(''T1'', (0::int, 4::int, [''PER''], ''John''))]" by simp
  from orphan_attribute_raises_KeyError[of attribute_options orphan_attribute_line
      "[good_textbound_line, orphan_attribute_line]" "''T2''" "''Negated''"
      "[(''T1'', (0, 4, [''PER''], ''John''))]" "[(''T2'', ''Negated'')]", THEN conjunct1]
    a i k orphan_attribute_line_facts orphan_parse_lines
  have 1: "parse_textbounds attribute_options [good_textbound_line, orphan_attribute_line] = Inl KeyError"
    by blast
  from orphan_attribute_raises_KeyError[of no_options orphan_attribute_line _ "''T2''" "''Negated''"
      _ _ "[good_textbound_line]" "[]", THEN conjunct2]
    a orphan_attribute_line_facts
  have 2: "parse_textbounds no_options ([good_textbound_line] @ orphan_attribute_line # []) =
     parse_textbounds no_options ([good_textbound_line] @ [])"
    by blast
  from a orphan_attribute_line_facts orphan_parse_lines 1 2 show ?thesis by blast
qed

text \<open>The spans that \<open>relabel\<close> receives from \<open>get_annotations\<close> do not overlap.\<close>

lemma get_annotations_nonoverlapping:
  "get_annotations opts annfile = Inr (anns, printed) \<Longrightarrow> nonoverlapping anns"
  using eliminate_overlaps_nonoverlapping
  by (auto simp: get_annotations_def split: sum.splits) (metis fst_conv)

section \<open>The reverse offset mapper: proofs\<close>

lemma write_token_effect:
  assumes "write_token ct st = Inr st'"
  shows "w_segment st' = w_segment st" "w_closed st' = w_closed st" "w_out2 st' = w_out2 st"
    "w_idnum st' = w_idnum st + 1" "ids (w_out st') = ids (w_out st) @ [w_idnum st]"
  using assms
  by (auto simp: write_token_def tokstr_def Let_def ids_def split: if_splits)

lemma upto_snoc: "(i::int) \<le> j + 1 \<Longrightarrow> [i .. j] @ [j + 1] = [i .. j + 1]"
  by (simp add: upto_rec2)

lemma write_tokens_effect:
  "write_tokens cts st = Inr st' \<Longrightarrow>
     w_segment st' = w_segment st \<and> w_closed st' = w_closed st \<and> w_out2 st' = w_out2 st \<and>
     w_idnum st' = w_idnum st + int (length cts) \<and>
     ids (w_out st') = ids (w_out st) @ [w_idnum st .. w_idnum st + int (length cts) - 1]"
proof (induction cts arbitrary: st)
  case Nil
  then show ?case by simp
next
  case (Cons ct cts)
  from Cons.prems obtain st1 where s: "write_token ct st = Inr st1"
    and r: "write_tokens cts st1 = Inr st'"
    by (auto split: sum.splits)
  have "[w_idnum st .. w_idnum st + int (length cts)] =
        w_idnum st # [w_idnum st + 1 .. w_idnum st + 1 + int (length cts) - 1]"
    by (simp add: upto_rec1)
  with Cons.IH[OF r] write_token_effect[OF s] show ?case by simp
qed

lemma write_sentence_effect:
  assumes "write_sentence cs st = Inr st'"
  shows "w_segment st' = w_segment st \<and> w_closed st' = w_closed st \<and>
     w_idnum st' = w_idnum st + int (length (fst cs)) \<and>
     ids (w_out st') = ids (w_out st) @ [w_idnum st .. w_idnum st + int (length (fst cs)) - 1]"
proof -
  obtain c t where cs: "cs = (c, t)" by (cases cs)
  from assms cs obtain key toks st1 where t: "t = key # toks" and len: "length c = length toks"
    and w: "write_tokens (zip c toks) (st\<lparr>w_offset := w_offset st + int (length key) + 1\<rparr>) = Inr st1"
    and st': "st' = st1\<lparr>w_out2 := w_out2 st1 @ [replace_first (CHR '' '') (CHR ''|'') (join_with '' '' t)]\<rparr>"
    by (auto simp: write_sentence_def split: if_splits list.splits sum.splits)
  from write_tokens_effect[OF w] len st' cs show ?thesis by simp
qed


lemma token_count_simps [simp]:
  "token_count [] = 0" "token_count (c # cs) = length c + token_count cs"
  "token_count (xs @ ys) = token_count xs + token_count ys"
  by (simp_all add: token_count_def)

lemma upto_append: "(i::int) \<le> j \<Longrightarrow> j \<le> k + 1 \<Longrightarrow> [i .. j - 1] @ [j .. k] = [i .. k]"
  using upto_split2[of i "j - 1" k] by (cases "j \<le> i") (auto simp: upto.simps)

text \<open>No new segment while fewer than 999 ids have been assigned.\<close>

lemma write_sentences_one_segment:
  "write_sentences zs st = Inr st' \<Longrightarrow> w_idnum st + int (token_count (map fst zs)) < 1000 \<Longrightarrow>
     w_segment st' = w_segment st \<and> w_closed st' = w_closed st \<and>
     w_idnum st' = w_idnum st + int (token_count (map fst zs)) \<and>
     ids (w_out st') = ids (w_out st) @ [w_idnum st .. w_idnum st' - 1]"
proof (induction zs arbitrary: st)
  case Nil
  then show ?case by simp
next
  case (Cons z zs)
  from Cons.prems(1) obtain st1 where s: "write_sentence z st = Inr st1"
    and r: "write_sentences zs (next_segment st1) = Inr st'"
    by (auto split: sum.splits)
  note e = write_sentence_effect[OF s]
  from e Cons.prems(2) have small: "w_idnum st1 < 1000" by simp
  then have n: "next_segment st1 = st1" by (simp add: next_segment_def)
  from e Cons.prems(2) have "w_idnum st1 + int (token_count (map fst zs)) < 1000" by simp
  from Cons.IH[OF r[unfolded n] this] e
  show ?case
    using upto_append[of "w_idnum st" "w_idnum st1" "w_idnum st' - 1"] by simp
qed

text \<open>The first new segment: after the first sentence that brings \<open>idnum\<close> to 1000 or more.\<close>

lemma write_sentences_first_split:
  "write_sentences zs st = Inr st' \<Longrightarrow> w_idnum st < 1000 \<Longrightarrow>
   1000 \<le> w_idnum st + int (token_count (map fst zs)) \<Longrightarrow>
     \<exists>pre z post printed copied.
        zs = pre @ z # post \<and>
        w_idnum st + int (token_count (map fst pre)) < 1000 \<and>
        1000 \<le> w_idnum st + int (token_count (map fst (pre @ [z]))) \<and>
        ids printed = ids (w_out st) @
           [w_idnum st .. w_idnum st + int (token_count (map fst (pre @ [z]))) - 1] \<and>
        write_sentences post
          \<lparr>w_segment = w_segment st + 1, w_idnum = 1, w_offset = 0, w_out = [], w_out2 = [],
           w_closed = w_closed st @ [(w_segment st, printed, copied)]\<rparr> = Inr st'"
proof (induction zs arbitrary: st)
  case Nil
  then show ?case by simp
next
  case (Cons z zs)
  from Cons.prems(1) obtain st1 where s: "write_sentence z st = Inr st1"
    and r: "write_sentences zs (next_segment st1) = Inr st'"
    by (auto split: sum.splits)
  note e = write_sentence_effect[OF s]
  show ?case
  proof (cases "1000 \<le> w_idnum st1")
    case True
    then have n: "next_segment st1 =
        \<lparr>w_segment = w_segment st + 1, w_idnum = 1, w_offset = 0, w_out = [], w_out2 = [],
         w_closed = w_closed st @ [(w_segment st, w_out st1, w_out2 st1)]\<rparr>"
      using e by (simp add: next_segment_def)
    show ?thesis
      apply (rule exI[of _ "[]"], rule exI[of _ z], rule exI[of _ zs])
      apply (rule exI[of _ "w_out st1"], rule exI[of _ "w_out2 st1"])
      using True e r[unfolded n] Cons.prems(2) by simp
  next
    case False
    then have n: "next_segment st1 = st1" by (simp add: next_segment_def)
    from False have a: "w_idnum st1 < 1000" by simp
    from e Cons.prems(3) have b: "1000 \<le> w_idnum st1 + int (token_count (map fst zs))" by simp
    from Cons.IH[OF r[unfolded n] a b] obtain pre z' post printed copied where
      p: "zs = pre @ z' # post"
      "w_idnum st1 + int (token_count (map fst pre)) < 1000"
      "1000 \<le> w_idnum st1 + int (token_count (map fst (pre @ [z'])))"
      "ids printed = ids (w_out st1) @
           [w_idnum st1 .. w_idnum st1 + int (token_count (map fst (pre @ [z']))) - 1]"
      "write_sentences post
          \<lparr>w_segment = w_segment st1 + 1, w_idnum = 1, w_offset = 0, w_out = [], w_out2 = [],
           w_closed = w_closed st1 @ [(w_segment st1, printed, copied)]\<rparr> = Inr st'"
      by blast
    have u: "[w_idnum st .. w_idnum st1 - 1] @
          [w_idnum st1 .. w_idnum st1 + int (token_count (map fst (pre @ [z']))) - 1] =
          [w_idnum st .. w_idnum st1 + int (token_count (map fst (pre @ [z']))) - 1]"
      using e by (intro upto_append) simp_all
    show ?thesis
      apply (rule exI[of _ "z # pre"], rule exI[of _ z'], rule exI[of _ post])
      apply (rule exI[of _ printed], rule exI[of _ copied])
      using p e u by (simp add: add.assoc)
  qed
qed


text \<open>The loop does not read the segment number or the closed files.\<close>

lemma write_token_relocate:
  "write_token ct (relocate d cl st) = map_sum id (relocate d cl) (write_token ct st)"
  by (simp add: write_token_def relocate_def Let_def tokstr_def)

lemma write_tokens_relocate:
  "write_tokens cts (relocate d cl st) = map_sum id (relocate d cl) (write_tokens cts st)"
proof (induction cts arbitrary: st)
  case Nil
  then show ?case by simp
next
  case (Cons ct cts)
  then show ?case
    by (cases "write_token ct st") (simp_all add: write_token_relocate)
qed

lemma relocate_offset:
  "(relocate d cl st)\<lparr>w_offset := x\<rparr> = relocate d cl (st\<lparr>w_offset := x\<rparr>)"
  "w_offset (relocate d cl st) = w_offset st"
  by (simp_all add: relocate_def)

lemma relocate_out2:
  "(relocate d cl st)\<lparr>w_out2 := x\<rparr> = relocate d cl (st\<lparr>w_out2 := x\<rparr>)"
  "w_out2 (relocate d cl st) = w_out2 st"
  by (simp_all add: relocate_def)

lemma write_sentence_relocate:
  "write_sentence cs (relocate d cl st) = map_sum id (relocate d cl) (write_sentence cs st)"
proof -
  obtain c t where cs: "cs = (c, t)" by (cases cs)
  show ?thesis
  proof (cases t)
    case Nil
    with cs show ?thesis by (simp add: write_sentence_def)
  next
    case (Cons key toks)
    show ?thesis
    proof (cases "write_tokens (zip c toks) (st\<lparr>w_offset := w_offset st + int (length key) + 1\<rparr>)")
      case (Inl err)
      with cs Cons show ?thesis
        by (simp add: write_sentence_def relocate_offset write_tokens_relocate)
    next
      case (Inr st1)
      with cs Cons show ?thesis
        by (simp add: write_sentence_def relocate_offset write_tokens_relocate relocate_out2)
    qed
  qed
qed

lemma next_segment_relocate:
  "next_segment (relocate d cl st) = relocate d cl (next_segment st)"
  by (simp add: next_segment_def relocate_def)

lemma write_sentences_relocate:
  "write_sentences zs (relocate d cl st) = map_sum id (relocate d cl) (write_sentences zs st)"
proof (induction zs arbitrary: st)
  case Nil
  then show ?case by simp
next
  case (Cons z zs)
  then show ?case
    by (cases "write_sentence z st") (simp_all add: write_sentence_relocate next_segment_relocate)
qed

text \<open>A document of well-formed sentences is written without error.\<close>

lemma write_token_total:
  "token_ok (fst ct) \<Longrightarrow> \<exists>st'. write_token ct st = Inr st'"
  by (auto simp: token_ok_def write_token_def tokstr_def Let_def)

lemma write_tokens_total:
  "list_all token_ok (map fst cts) \<Longrightarrow> \<exists>st'. write_tokens cts st = Inr st'"
proof (induction cts arbitrary: st)
  case Nil
  then show ?case by simp
next
  case (Cons ct cts)
  then obtain st1 where "write_token ct st = Inr st1"
    using write_token_total[of ct st] by auto
  with Cons show ?case by simp
qed

lemma write_sentence_total:
  assumes "sentence_ok cs"
  shows "\<exists>st'. write_sentence cs st = Inr st'"
proof -
  obtain c t where cs: "cs = (c, t)" by (cases cs)
  from assms cs obtain key toks where t: "t = key # toks" and len: "length c = length toks"
    and ok: "list_all token_ok c"
    by (cases t) (auto simp: sentence_ok_def)
  from len ok have "list_all token_ok (map fst (zip c toks))" by simp
  from write_tokens_total[OF this, of "st\<lparr>w_offset := w_offset st + int (length key) + 1\<rparr>"]
  obtain st1 where "write_tokens (zip c toks) (st\<lparr>w_offset := w_offset st + int (length key) + 1\<rparr>) = Inr st1"
    by blast
  with cs t len show ?thesis by (simp add: write_sentence_def)
qed

lemma write_sentences_total:
  "list_all sentence_ok zs \<Longrightarrow> \<exists>st'. write_sentences zs st = Inr st'"
proof (induction zs arbitrary: st)
  case Nil
  then show ?case by simp
next
  case (Cons z zs)
  then obtain st1 where "write_sentence z st = Inr st1"
    using write_sentence_total[of z st] by auto
  with Cons show ?case by simp
qed

lemma main_document_total:
  assumes "length conlldata = length tokenized" "list_all sentence_ok (zip conlldata tokenized)"
  shows "\<exists>files. main_document conlldata tokenized = Inr files"
  using write_sentences_total[OF assms(2), of first_segment] assms(1)
  by (auto simp: main_document_def)


text \<open>
  A document of 1001 tokens: the first segment is closed after the first sentence at the end
  of which \<open>idnum >= 1000\<close>, that is, when 999 ids or more have been assigned; the two
  tokens at most that remain are written from a fresh state.
\<close>

lemma segments_of_1001:
  assumes tc: "token_count conlldata = 1001"
    and run: "main_document conlldata tokenized = Inr files"
  shows "\<exists>n k ann1 txt1 ann2 txt2.
     files = [(1, ann1, txt1), (2, ann2, txt2)] \<and>
     0 < n \<and> n \<le> length conlldata \<and>
     token_count (take (n - 1) conlldata) < 999 \<and>
     int (token_count (take n conlldata)) = k \<and> 999 \<le> k \<and> k \<le> 1001 \<and>
     ids ann1 = [1 .. k] \<and> ids ann2 = [1 .. 1001 - k] \<and>
     main_document (drop n conlldata) (drop n tokenized) = Inr [(1, ann2, txt2)]"
proof -
  let ?zs = "zip conlldata tokenized"
  from run have len: "length conlldata = length tokenized"
    by (auto simp: main_document_def split: if_splits)
  then have fz: "map fst ?zs = conlldata" and sz: "map snd ?zs = tokenized" by simp_all
  from run len obtain st' where w: "write_sentences ?zs first_segment = Inr st'"
    and files: "files = w_closed st' @ [(w_segment st', w_out st', w_out2 st')]"
    by (auto simp: main_document_def split: sum.splits)
  have i1: "w_idnum first_segment < 1000" by (simp add: first_segment_def)
  from tc have i2: "1000 \<le> w_idnum first_segment + int (token_count (map fst ?zs))"
    unfolding fz by (simp add: first_segment_def)
  from write_sentences_first_split[OF w i1 i2] obtain pre z post ann1 txt1 where
    zs: "?zs = pre @ z # post"
    and lo: "w_idnum first_segment + int (token_count (map fst pre)) < 1000"
    and hi: "1000 \<le> w_idnum first_segment + int (token_count (map fst (pre @ [z])))"
    and id1: "ids ann1 = ids (w_out first_segment) @
         [w_idnum first_segment .. w_idnum first_segment + int (token_count (map fst (pre @ [z]))) - 1]"
    and rest: "write_sentences post
          \<lparr>w_segment = w_segment first_segment + 1, w_idnum = 1, w_offset = 0, w_out = [], w_out2 = [],
           w_closed = w_closed first_segment @ [(w_segment first_segment, ann1, txt1)]\<rparr> = Inr st'"
    by blast
  define n where "n = Suc (length pre)"
  define k where "k = int (token_count (map fst (pre @ [z])))"
  have "length ?zs = length pre + 1 + length post" unfolding zs by simp
  with len have nl: "n \<le> length conlldata" by (simp add: n_def)
  have tk: "take n ?zs = pre @ [z]" "take (n - 1) ?zs = pre" "drop n ?zs = post"
    unfolding zs n_def by simp_all
  have tn: "take n conlldata = map fst (pre @ [z])"
    using tk(1) fz by (metis take_map)
  have tn1: "take (n - 1) conlldata = map fst pre"
    using tk(2) fz by (metis take_map)
  have dn: "zip (drop n conlldata) (drop n tokenized) = post"
    using tk(3) by (simp add: drop_zip)
  from tc have "token_count (map fst ?zs) = 1001" unfolding fz .
  then have total: "token_count (map fst (pre @ [z])) + token_count (map fst post) = 1001"
    unfolding zs by simp
  from lo have klo: "token_count (map fst pre) < 999" by (simp add: first_segment_def)
  from hi have k1: "999 \<le> k" by (simp add: first_segment_def k_def)
  from total have k2: "k \<le> 1001" and tp: "int (token_count (map fst post)) = 1001 - k"
    by (simp_all add: k_def)
  from id1 have i_ann1: "ids ann1 = [1 .. k]"
    by (simp add: first_segment_def ids_def k_def)
  have fresh: "\<lparr>w_segment = w_segment first_segment + 1, w_idnum = 1, w_offset = 0, w_out = [], w_out2 = [],
           w_closed = w_closed first_segment @ [(w_segment first_segment, ann1, txt1)]\<rparr>
        = relocate 1 [(1, ann1, txt1)] first_segment"
    by (simp add: relocate_def first_segment_def)
  from rest[unfolded fresh write_sentences_relocate] obtain st0 where
    w0: "write_sentences post first_segment = Inr st0"
    and st': "st' = relocate 1 [(1, ann1, txt1)] st0"
    by (cases "write_sentences post first_segment") auto
  from tp k1 have small: "w_idnum first_segment + int (token_count (map fst post)) < 1000"
    by (simp add: first_segment_def)
  from write_sentences_one_segment[OF w0 small] tp
  have s0: "w_segment st0 = 1" "w_closed st0 = []" "ids (w_out st0) = [1 .. 1001 - k]"
    by (simp_all add: first_segment_def ids_def)
  from files st' s0 have f: "files = [(1, ann1, txt1), (2, w_out st0, w_out2 st0)]"
    by (simp add: relocate_def)
  from len have "length (drop n conlldata) = length (drop n tokenized)" by simp
  with w0 s0 have m: "main_document (drop n conlldata) (drop n tokenized) = Inr [(1, w_out st0, w_out2 st0)]"
    by (simp add: main_document_def dn)
  have c0: "0 < n" by (simp add: n_def)
  from klo have c1: "token_count (take (n - 1) conlldata) < 999" unfolding tn1 .
  have c2: "int (token_count (take n conlldata)) = k" unfolding tn k_def ..
  from f c0 nl c1 c2 k1 k2 i_ann1 s0(3) m show ?thesis
    apply (rule_tac x = n in exI, rule_tac x = k in exI)
    apply (rule_tac x = ann1 in exI, rule_tac x = txt1 in exI)
    apply (rule_tac x = "w_out st0" in exI, rule_tac x = "w_out2 st0" in exI)
    by simp
qed

text \<open>
  Claim C6, as amended. For a document of 1001 tokens that is written without error,
  exactly two segment file pairs are produced, numbered 1 and 2. The first holds the ids 1
  to \<open>k\<close>, where \<open>k\<close> is the number of tokens in the first \<open>n\<close> sentences and \<open>n\<close> is the
  least number of sentences holding 999 tokens or more, so \<open>k\<close> is 999, 1000 or 1001. The
  second holds the ids 1 to \<open>1001 - k\<close>, and it is exactly what the mapper writes for the
  remaining sentences on their own: the ids restart at 1 and the offset at 0.
\<close>

theorem segments_of_1001_tokens:
  assumes "token_count conlldata = 1001"
    and "main_document conlldata tokenized = Inr files"
  shows "\<exists>n k ann1 txt1 ann2 txt2.
     files = [(1, ann1, txt1), (2, ann2, txt2)] \<and>
     0 < n \<and> n \<le> length conlldata \<and>
     token_count (take (n - 1) conlldata) < 999 \<and>
     int (token_count (take n conlldata)) = k \<and> 999 \<le> k \<and> k \<le> 1001 \<and>
     ids ann1 = [1 .. k] \<and> ids ann2 = [1 .. 1001 - k] \<and>
     main_document (drop n conlldata) (drop n tokenized) = Inr [(1, ann2, txt2)]"
  using assms by (rule segments_of_1001)


lemma long_token_count: "token_count long_conlldata = 1001"
  by (simp add: token_count_def long_conlldata_def map_replicate_const sum_list_replicate)

lemma long_take_count: "token_count (take m long_conlldata) = min m 1001"
  by (simp add: token_count_def long_conlldata_def map_replicate_const sum_list_replicate)

lemma example_sentence_ok: "sentence_ok ([example_conlltok], [''s1'', ''dog''])"
  by (simp add: sentence_ok_def token_ok_def example_conlltok_def strip_def isspace_def NEWLINE_def)

lemma long_document_runs: "\<exists>files. main_document long_conlldata long_tokenized = Inr files"
proof (rule main_document_total)
  show "length long_conlldata = length long_tokenized"
    by (simp add: long_conlldata_def long_tokenized_def)
  have "zip long_conlldata long_tokenized = replicate 1001 ([example_conlltok], [''s1'', ''dog''])"
    by (simp add: long_conlldata_def long_tokenized_def zip_replicate)
  then show "list_all sentence_ok (zip long_conlldata long_tokenized)"
    using example_sentence_ok by (simp add: list_all_iff)
qed

text \<open>
  1001 sentences of one token each: the first segment holds the ids 1 to 999, not 1 to 1000,
  and the second the ids 1 and 2.
\<close>

theorem first_segment_ends_at_999:
  "token_count long_conlldata = 1001 \<and>
   (\<exists>ann1 txt1 ann2 txt2.
      main_document long_conlldata long_tokenized = Inr [(1, ann1, txt1), (2, ann2, txt2)] \<and>
      ids ann1 = [1 .. 999] \<and> ids ann1 \<noteq> [1 .. 1000] \<and> ids ann2 = [1 .. 2])"
proof -
  from long_document_runs obtain files where
    run: "main_document long_conlldata long_tokenized = Inr files" by blast
  from segments_of_1001[OF long_token_count run] obtain n k ann1 txt1 ann2 txt2 where
    f: "files = [(1, ann1, txt1), (2, ann2, txt2)]"
    and n: "0 < n" "n \<le> length long_conlldata"
    and lo: "token_count (take (n - 1) long_conlldata) < 999"
    and k: "int (token_count (take n long_conlldata)) = k" "999 \<le> k"
    and i: "ids ann1 = [1 .. k]" "ids ann2 = [1 .. 1001 - k]"
    by blast
  from n(2) have "n \<le> 1001" by (simp add: long_conlldata_def)
  with lo k n(1) have "k = 999" unfolding long_take_count by simp
  with i have i': "ids ann1 = [1 .. 999]" "ids ann2 = [1 .. 2]" by simp_all
  have "length [1 .. 999::int] \<noteq> length [1 .. 1000::int]" by simp
  then have "[1 .. 999::int] \<noteq> [1 .. 1000]" by metis
  with run f i' long_token_count show ?thesis by auto
qed

theorem segments_of_1001_tokens_witness:
  "token_count long_conlldata = 1001 \<and>
   (\<exists>files. main_document long_conlldata long_tokenized = Inr files \<and>
      (\<exists>n k ann1 txt1 ann2 txt2.
         files = [(1, ann1, txt1), (2, ann2, txt2)] \<and>
         0 < n \<and> n \<le> length long_conlldata \<and>
         token_count (take (n - 1) long_conlldata) < 999 \<and>
         int (token_count (take n long_conlldata)) = k \<and> 999 \<le> k \<and> k \<le> 1001 \<and>
         ids ann1 = [1 .. k] \<and> ids ann2 = [1 .. 1001 - k] \<and>
         main_document (drop n long_conlldata) (drop n long_tokenized) = Inr [(1, ann2, txt2)]))"
proof -
  from long_document_runs obtain files where
    run: "main_document long_conlldata long_tokenized = Inr files" by blast
  from segments_of_1001_tokens[OF long_token_count run] run long_token_count
  show ?thesis by blast
qed

end
